theory Spec2Isabelle
  imports Main "HOL-Library.Char_ord" "HOL-Library.Multiset" "HOL-Library.Sublist"
begin

section \<open>Outcomes of the C++ operations\<close>

text \<open>
  The program has no error type of its own.  What can go wrong is an exception thrown by the
  standard library (\<open>std::length_error\<close> from \<open>vector::reserve\<close>, \<open>std::invalid_argument\<close>
  from the \<open>std::bitset\<close> string constructor and from \<open>std::stoi\<close>) or undefined behaviour:
  an index, iterator increment or dereference outside its container, or the use of an iterator
  that a reallocation has invalidated.  A loop that does not return is the value \<open>None\<close>.
\<close>

datatype fault = LengthError | InvalidArgument | UndefinedBehaviour

type_synonym 'a outcome = "fault + 'a"

section \<open>main.cpp: counting runs of equal symbols\<close>

text \<open>\<open>adjacent_count(first, last)\<close>: the length of the run at the head of the range and the
  position after it; \<open>0\<close> only on the empty range.  Counts are \<open>ptrdiff_t\<close>, modelled as \<open>int\<close>
  (a count is at most the length of the input, so it never overflows).\<close>

fun adjacent_count_loop :: "int \<Rightarrow> 'a list \<Rightarrow> int \<times> 'a list" where
  "adjacent_count_loop n (x # y # ys) =
     (if x = y then adjacent_count_loop (n + 1) (y # ys) else (n + 1, y # ys))"
| "adjacent_count_loop n [x] = (n + 1, [])"
| "adjacent_count_loop n [] = (n, [])"

definition adjacent_count :: "'a list \<Rightarrow> int \<times> 'a list" where
  "adjacent_count xs = adjacent_count_loop 0 xs"

function unique_copy_with_count :: "'a list \<Rightarrow> (int \<times> 'a) list" where
  "unique_copy_with_count [] = []"
| "unique_copy_with_count (x # xs) =
     (let count = adjacent_count (x # xs)
      in if fst count = 0 then [] else (fst count, x) # unique_copy_with_count (snd count))"
  by pat_completeness auto
termination
proof (relation "measure length", goal_cases)
  case 1
  show ?case by simp
next
  case (2 x xs count)
  have "ys \<noteq> [] \<Longrightarrow> length (snd (adjacent_count_loop n ys)) < length ys" for n and ys :: "'a list"
    by (induction n ys rule: adjacent_count_loop.induct) auto
  from this [of "x # xs" 0] 2 show ?case
    by (simp add: adjacent_count_def)
qed

section \<open>main.cpp: the function objects\<close>

text \<open>The weights are \<open>ptrdiff_t\<close> values (64 bits, signed), modelled as \<open>int\<close>.  Signed
  overflow is undefined behaviour, so the theorems about weights are stated for weights whose
  sums stay inside the type: \<open>in_ptrdiff\<close> is the range of the type.\<close>

definition in_ptrdiff :: "int \<Rightarrow> bool" where
  "in_ptrdiff w \<longleftrightarrow> - (2 ^ 63) \<le> w \<and> w < 2 ^ 63"

definition merge_first_op :: "('t \<Rightarrow> 't \<Rightarrow> 't) \<Rightarrow> 't \<times> char \<Rightarrow> 't \<times> char \<Rightarrow> 't \<times> char" where
  "merge_first_op op x y = (op (fst x) (fst y), CHR 0x00)"

definition compare_first :: "('t \<Rightarrow> 't \<Rightarrow> bool) \<Rightarrow> 't \<times> 'u \<Rightarrow> 't \<times> 'u \<Rightarrow> bool" where
  "compare_first cmp x y = cmp (fst x) (fst y)"

definition get_second :: "'t \<times> 'u \<Rightarrow> 'u" where
  "get_second x = snd x"

definition not2 :: "('a \<Rightarrow> 'a \<Rightarrow> bool) \<Rightarrow> 'a \<Rightarrow> 'a \<Rightarrow> bool" where
  "not2 cmp x y = (\<not> cmp x y)"

text \<open>\<open>std::bitset<w>(v).to_string()\<close>: the low \<open>w\<close> bits of \<open>v\<close>, most significant first.\<close>

definition bitset_to_string :: "nat \<Rightarrow> nat \<Rightarrow> string" where
  "bitset_to_string w v = map (\<lambda>i. if bit v i then CHR ''1'' else CHR ''0'') (rev [0..<w])"

definition is_bit :: "char \<Rightarrow> bool" where
  "is_bit c = (c = CHR ''0'' \<or> c = CHR ''1'')"

definition binary_value :: "string \<Rightarrow> nat" where
  "binary_value s = foldl (\<lambda>a c. 2 * a + (if c = CHR ''1'' then 1 else 0)) 0 s"

text \<open>\<open>std::bitset<16>(str)\<close>: throws \<open>std::invalid_argument\<close> when a character is neither
  \<open>'0'\<close> nor \<open>'1'\<close>; the callers pass at most 16 characters.\<close>

definition bitset_of_string :: "string \<Rightarrow> nat outcome" where
  "bitset_of_string s = (if list_all is_bit s then Inr (binary_value s) else Inl InvalidArgument)"

definition isspace :: "char \<Rightarrow> bool" where
  "isspace c = (c = CHR '' '' \<or> c = CHR 0x09 \<or> c = CHR 0x0A \<or> c = CHR 0x0B \<or> c = CHR 0x0C
     \<or> c = CHR 0x0D)"

text \<open>\<open>std::stoi(x, nullptr, 2)\<close> as \<open>strtol\<close> reads it: white space, an optional sign, then the
  longest run of binary digits; \<open>std::invalid_argument\<close> when there is no digit.  The callers
  pass at most 8 characters, so the value is in the range of \<open>int\<close>.\<close>

definition stoi2 :: "string \<Rightarrow> int outcome" where
  "stoi2 s =
     (let s1 = dropWhile isspace s;
          neg = (s1 \<noteq> [] \<and> hd s1 = CHR ''-'');
          s2 = (if s1 \<noteq> [] \<and> (hd s1 = CHR ''-'' \<or> hd s1 = CHR ''+'') then tl s1 else s1);
          ds = takeWhile is_bit s2
      in if ds = [] then Inl InvalidArgument
         else Inr (if neg then - int (binary_value ds) else int (binary_value ds)))"

text \<open>\<open>binary_converter\<close>: a leaf's symbol as 8 bits, and back
  (\<open>static_cast<char>\<close> keeps the low 8 bits).\<close>

definition binary_converter_encode :: "'t \<times> char \<Rightarrow> string" where
  "binary_converter_encode x = bitset_to_string 8 (of_char (snd x))"

definition binary_converter_decode :: "string \<Rightarrow> char outcome" where
  "binary_converter_decode x = (case stoi2 x of Inl e \<Rightarrow> Inl e | Inr v \<Rightarrow> Inr (char_of v))"

section \<open>huffman.h: the two-frontier selection\<close>

text \<open>
  Iterators into a vector are positions \<open>0 .. length xs\<close>.  \<open>next_node\<close> returns the chosen
  position and the two advanced cursors.  Incrementing a cursor that is not inside the vector
  and comparing through such a cursor are undefined behaviour.
\<close>

definition next_node ::
  "('a \<Rightarrow> 'a \<Rightarrow> bool) \<Rightarrow> 'a list \<Rightarrow> nat \<Rightarrow> nat \<Rightarrow> nat \<Rightarrow> nat \<Rightarrow> (nat \<times> nat \<times> nat) outcome" where
  "next_node cmp xs f0 l0 f1 l1 =
     (if f1 = l1 then (if f0 < length xs then Inr (f0, f0 + 1, f1) else Inl UndefinedBehaviour)
      else if f0 = l0 then (if f1 < length xs then Inr (f1, f0, f1 + 1) else Inl UndefinedBehaviour)
      else if f1 < length xs \<and> f0 < length xs
        then (if cmp (xs ! f1) (xs ! f0) then Inr (f1, f0, f1 + 1) else Inr (f0, f0 + 1, f1))
        else Inl UndefinedBehaviour)"

section \<open>huffman.h: generate_codes\<close>

text \<open>
  The vector \<open>prefixes\<close> (here \<open>pfxs\<close>) is the queue, \<open>current\<close> the position of its head, \<open>cap\<close> the capacity
  reserved for it (growing beyond it would invalidate \<open>current\<close>).  The callback \<open>f\<close> is
  applied to the emitted pairs in order, so the loop returns them as a list.
\<close>

fun generate_codes_loop ::
  "('a \<Rightarrow> 'a \<Rightarrow> bool) \<Rightarrow> 'a list \<Rightarrow> nat \<Rightarrow> nat \<Rightarrow> nat \<Rightarrow> nat \<Rightarrow> (nat \<times> string) list \<Rightarrow> nat \<Rightarrow>
   nat \<Rightarrow> nat \<Rightarrow> (nat \<times> string) list \<Rightarrow> (nat \<times> string) list outcome" where
  "generate_codes_loop cmp xs l0 l1 cap 0 pfxs current f0 f1 out = Inr out"
| "generate_codes_loop cmp xs l0 l1 cap (Suc n) pfxs current f0 f1 out =
     (if length pfxs \<le> current then Inl UndefinedBehaviour
      else if l1 \<le> fst (pfxs ! current)
        then generate_codes_loop cmp xs l0 l1 cap n pfxs (current + 1) f0 f1
               (out @ [pfxs ! current])
      else (case next_node cmp xs f0 l0 f1 l1 of
          Inl e \<Rightarrow> Inl e
        | Inr (x, f0a, f1a) \<Rightarrow>
           (case next_node cmp xs f0a l0 f1a l1 of
              Inl e \<Rightarrow> Inl e
            | Inr (y, f0b, f1b) \<Rightarrow>
               if cap < length pfxs + 2 then Inl UndefinedBehaviour
               else generate_codes_loop cmp xs l0 l1 cap n
                      (pfxs @ [(x, snd (pfxs ! current) @ ''1''),
                                   (y, snd (pfxs ! current) @ ''0'')])
                      (current + 1) f0b f1b out)))"

definition generate_codes ::
  "('a \<Rightarrow> 'a \<Rightarrow> bool) \<Rightarrow> 'a list \<Rightarrow> nat \<Rightarrow> nat \<Rightarrow> nat \<Rightarrow> nat \<Rightarrow> (nat \<times> string) list outcome" where
  "generate_codes cmp xs f0 l0 f1 l1 =
     (if l0 < f1 \<or> length xs \<le> f1 then Inl UndefinedBehaviour
      else generate_codes_loop cmp xs l0 l1 (l0 - f1) (l0 - f1) [(f1, [])] 0 f0 (f1 + 1) [])"

section \<open>huffman.h: huffman_encoder\<close>

partial_function (option) build_huffman_array_loop ::
  "('a \<Rightarrow> 'a \<Rightarrow> bool) \<Rightarrow> ('a \<Rightarrow> 'a \<Rightarrow> 'a) \<Rightarrow> 'a list \<Rightarrow> nat \<Rightarrow> nat \<Rightarrow> nat \<Rightarrow> nat \<Rightarrow>
   'a list outcome option" where
  "build_huffman_array_loop cmp op nodes f0 l0 f1 n =
     (if length nodes = n then Some (Inr nodes)
      else (case next_node cmp nodes f0 l0 f1 (length nodes) of
          Inl e \<Rightarrow> Some (Inl e)
        | Inr (x, f0a, f1a) \<Rightarrow>
           (case next_node cmp nodes f0a l0 f1a (length nodes) of
              Inl e \<Rightarrow> Some (Inl e)
            | Inr (y, f0b, f1b) \<Rightarrow>
               build_huffman_array_loop cmp op (nodes @ [op (nodes ! x) (nodes ! y)])
                 f0b l0 f1b n)))"

declare build_huffman_array_loop.simps [code]

text \<open>With no node, \<open>size * 2 - 1\<close> wraps to the largest \<open>size_t\<close> and \<open>reserve\<close> throws
  \<open>std::length_error\<close>; with one node, \<open>nodes.begin() + 2\<close> and \<open>nodes[1]\<close> are outside the
  vector.\<close>

definition build_huffman_array ::
  "('a \<Rightarrow> 'a \<Rightarrow> bool) \<Rightarrow> ('a \<Rightarrow> 'a \<Rightarrow> 'a) \<Rightarrow> 'a list \<Rightarrow> 'a list outcome option" where
  "build_huffman_array cmp op nodes =
     (let sz = length nodes
      in if sz = 0 then Some (Inl LengthError)
         else if sz < 2 then Some (Inl UndefinedBehaviour)
         else build_huffman_array_loop cmp op (nodes @ [op (nodes ! 0) (nodes ! 1)])
                2 sz sz (sz * 2 - 1))"

partial_function (option) header_loop ::
  "('a \<Rightarrow> 'a \<Rightarrow> bool) \<Rightarrow> ('a \<Rightarrow> string) \<Rightarrow> 'a list \<Rightarrow> nat \<Rightarrow> nat \<Rightarrow> nat \<Rightarrow> string \<Rightarrow>
   string outcome option" where
  "header_loop cmp converter nodes f0 l0 f1 result =
     (if f0 \<noteq> l0 \<or> f1 \<noteq> length nodes
      then (case next_node cmp nodes f0 l0 f1 (length nodes) of
          Inl e \<Rightarrow> Some (Inl e)
        | Inr (x, f0a, f1a) \<Rightarrow>
           if x < l0
           then header_loop cmp converter nodes f0a l0 f1a
                  (result @ ''1'' @ converter (nodes ! x))
           else header_loop cmp converter nodes f0a l0 f1a (result @ ''0''))
      else Some (Inr result))"

declare header_loop.simps [code]

definition header :: "('a \<Rightarrow> 'a \<Rightarrow> bool) \<Rightarrow> ('a \<Rightarrow> string) \<Rightarrow> 'a list \<Rightarrow> string outcome option" where
  "header cmp converter nodes =
     (let result = bitset_to_string 16 (length nodes);
          l0 = length nodes div 2 + 1
      in if length nodes < l0 then Some (Inl UndefinedBehaviour)
         else header_loop cmp converter nodes 0 l0 l0 result)"

text \<open>The callback of the encoder: \<open>unordered_map::insert\<close> keeps an entry that is there.\<close>

definition st_op :: "('a \<Rightarrow> 's) \<Rightarrow> 'a list \<Rightarrow> ('s \<rightharpoonup> string) \<Rightarrow> nat \<times> string \<Rightarrow> ('s \<rightharpoonup> string)" where
  "st_op f xs st x =
     (case st (f (xs ! fst x)) of None \<Rightarrow> st(f (xs ! fst x) \<mapsto> snd x) | Some c \<Rightarrow> st)"

text \<open>\<open>st[*first]\<close>: a missing key reads as the empty string.\<close>

definition st_at :: "('s \<rightharpoonup> string) \<Rightarrow> 's \<Rightarrow> string" where
  "st_at st s = (case st s of None \<Rightarrow> [] | Some c \<Rightarrow> c)"

text \<open>The code table of the encoder: \<open>generate_codes\<close> over the reversed array, with the
  negated comparator, folded into the map.\<close>

definition encoder_codes ::
  "('a \<Rightarrow> 'a \<Rightarrow> bool) \<Rightarrow> nat \<Rightarrow> 'a list \<Rightarrow> (nat \<times> string) list outcome" where
  "encoder_codes cmp lnodes nodes =
     (if length nodes < lnodes then Inl UndefinedBehaviour
      else generate_codes (not2 cmp) (rev nodes) (length nodes - lnodes) (length nodes) 0
             (length nodes - lnodes))"

definition huffman_encoder ::
  "('a \<Rightarrow> 'a \<Rightarrow> bool) \<Rightarrow> ('a \<Rightarrow> 'a \<Rightarrow> 'a) \<Rightarrow> ('a \<Rightarrow> 's) \<Rightarrow> ('a \<Rightarrow> string) \<Rightarrow> 'a list \<Rightarrow> 's list \<Rightarrow>
   string outcome option" where
  "huffman_encoder cmp op f converter nodes0 input =
     (let lnodes = length nodes0
      in case build_huffman_array cmp op nodes0 of
           None \<Rightarrow> None
         | Some (Inl e) \<Rightarrow> Some (Inl e)
         | Some (Inr nodes) \<Rightarrow>
            (case header cmp converter nodes of
               None \<Rightarrow> None
             | Some (Inl e) \<Rightarrow> Some (Inl e)
             | Some (Inr result) \<Rightarrow>
                (case encoder_codes cmp lnodes nodes of
                   Inl e \<Rightarrow> Some (Inl e)
                 | Inr codes \<Rightarrow>
                    (let st = foldl (st_op f (rev nodes)) Map.empty codes
                     in Some (Inr (result @ concat (map (st_at st) input)))))))"

section \<open>main.cpp: compress\<close>

text \<open>
  \<open>std::sort\<close> is not stable: which of two symbols of equal count comes first is left to the
  library.  \<open>compress\<close> therefore takes the sort of the frequency table as a parameter, and
  \<open>std_sort\<close> is what the standard promises of it.  The first sort, of the characters, only
  makes equal characters adjacent (its order of \<open>char\<close> decides the order of the table before
  the second sort).
\<close>

definition std_sort :: "((int \<times> char) list \<Rightarrow> (int \<times> char) list) \<Rightarrow> bool" where
  "std_sort srt = (\<forall>xs. mset (srt xs) = mset xs \<and> sorted (map fst (srt xs)))"

definition compress ::
  "((int \<times> char) list \<Rightarrow> (int \<times> char) list) \<Rightarrow> string \<Rightarrow> string outcome option" where
  "compress srt input =
     (let x = sort input;
          frequencies = unique_copy_with_count x;
          nodes = srt frequencies
      in huffman_encoder (compare_first (<)) (merge_first_op (+)) get_second
           binary_converter_encode nodes input)"

section \<open>huffman.h: huffman_decoder\<close>

text \<open>The loop of \<open>read_header\<close> over \<open>i < nodes.size()\<close>, with \<open>m\<close> the number of rounds
  left; the payload of an internal node is never read.\<close>

fun read_header_loop ::
  "(string \<Rightarrow> char outcome) \<Rightarrow> string \<Rightarrow> nat \<Rightarrow> nat \<Rightarrow> (int \<times> char) list \<Rightarrow> nat \<Rightarrow> nat \<Rightarrow> nat \<Rightarrow>
   ((int \<times> char) list \<times> nat) outcome" where
  "read_header_loop converter input 0 i nodes lnodes inodes first = Inr (nodes, first)"
| "read_header_loop converter input (Suc m) i nodes lnodes inodes first =
     (if length input \<le> first then Inl UndefinedBehaviour
      else if input ! first = CHR ''1''
        then (case converter (take 8 (drop (first + 1) input)) of
            Inl e \<Rightarrow> Inl e
          | Inr x \<Rightarrow>
             if length input < first + 1 + 8 \<or> length nodes \<le> lnodes then Inl UndefinedBehaviour
             else read_header_loop converter input m (i + 1) (nodes[lnodes := (int i, x)])
                    (lnodes + 1) inodes (first + 1 + 8))
      else if length nodes \<le> inodes then Inl UndefinedBehaviour
      else read_header_loop converter input m (i + 1) (nodes[inodes := (int i, CHR 0x00)])
             lnodes (inodes + 1) (first + 1))"

definition read_header ::
  "(string \<Rightarrow> char outcome) \<Rightarrow> string \<Rightarrow> ((int \<times> char) list \<times> nat) outcome" where
  "read_header converter input =
     (case bitset_of_string (take 16 input) of
        Inl e \<Rightarrow> Inl e
      | Inr sz \<Rightarrow>
         (let nodes = replicate sz (0, CHR 0x00);
              lnodes = 0;
              inodes = length nodes div 2 + 1
          in if length input < 16 then Inl UndefinedBehaviour
             else read_header_loop converter input (length nodes) 0 nodes lnodes inodes 16))"

text \<open>The comparator of the decoder, on the positions stored in the nodes.\<close>

definition decoder_cmp :: "int \<times> 'u \<Rightarrow> int \<times> 'u \<Rightarrow> bool" where
  "decoder_cmp x y = (\<not> fst x < fst y)"

text \<open>The candidate list at the moment payload matching begins.  The decoder sorts the list by
  code length while it is still empty and lets \<open>generate_codes\<close> append to it afterwards.\<close>

definition decoder_prefixes :: "(int \<times> 'u) list \<Rightarrow> (nat \<times> string) list outcome" where
  "decoder_prefixes nodes =
     (let lnodes = length nodes div 2 + 1;
          pfxs = sort_key (\<lambda>x. length (snd x)) []
      in if length nodes < lnodes then Inl UndefinedBehaviour
         else (case generate_codes decoder_cmp (rev nodes) (length nodes - lnodes) (length nodes)
                      0 (length nodes - lnodes) of
             Inl e \<Rightarrow> Inl e
           | Inr out \<Rightarrow> Inr (pfxs @ out)))"

text \<open>\<open>while (prefix.second.size() > bits_read.size())\<close>: reading at \<open>input.end()\<close> is
  undefined behaviour.\<close>

function read_bits :: "string \<Rightarrow> nat \<Rightarrow> nat \<Rightarrow> string \<Rightarrow> (nat \<times> string) outcome" where
  "read_bits input sz current bits_read =
     (if length bits_read < sz
      then (if length input \<le> current then Inl UndefinedBehaviour
            else read_bits input sz (current + 1) (bits_read @ [input ! current]))
      else Inr (current, bits_read))"
  by pat_completeness auto
termination
  by (relation "measure (\<lambda>(input, sz, current, bits_read). sz - length bits_read)") auto

text \<open>One pass of the \<open>for\<close> loop over the candidates: the symbol of the first match, or no
  match, with the cursor and the bits read so far.\<close>

datatype 'u scan = Match 'u nat | NoMatch nat string

fun match_prefix ::
  "string \<Rightarrow> (int \<times> 'u) list \<Rightarrow> (nat \<times> string) list \<Rightarrow> nat \<Rightarrow> string \<Rightarrow> 'u scan outcome" where
  "match_prefix input xs [] current bits_read = Inr (NoMatch current bits_read)"
| "match_prefix input xs (pfx # rest) current bits_read =
     (case read_bits input (length (snd pfx)) current bits_read of
        Inl e \<Rightarrow> Inl e
      | Inr (current', bits_read') \<Rightarrow>
         if bits_read' = snd pfx
         then (if fst pfx < length xs then Inr (Match (snd (xs ! fst pfx)) current')
               else Inl UndefinedBehaviour)
         else match_prefix input xs rest current' bits_read')"

partial_function (option) decode_loop ::
  "string \<Rightarrow> (int \<times> 'u) list \<Rightarrow> (nat \<times> string) list \<Rightarrow> nat \<Rightarrow> string \<Rightarrow> 'u list \<Rightarrow>
   'u list outcome option" where
  "decode_loop input xs pfxs current bits_read result =
     (if current \<noteq> length input
      then (case match_prefix input xs pfxs current bits_read of
          Inl e \<Rightarrow> Some (Inl e)
        | Inr (Match s current') \<Rightarrow> decode_loop input xs pfxs current' [] (result @ [s])
        | Inr (NoMatch current' bits_read') \<Rightarrow>
            decode_loop input xs pfxs current' bits_read' result)
      else Some (Inr result))"

declare decode_loop.simps [code]

definition huffman_decoder :: "(string \<Rightarrow> char outcome) \<Rightarrow> string \<Rightarrow> string outcome option" where
  "huffman_decoder converter input =
     (case read_header converter input of
        Inl e \<Rightarrow> Some (Inl e)
      | Inr (nodes, current) \<Rightarrow>
         (case decoder_prefixes nodes of
            Inl e \<Rightarrow> Some (Inl e)
          | Inr pfxs \<Rightarrow> decode_loop input (rev nodes) pfxs current [] []))"

section \<open>main.cpp: decompress\<close>

definition decompress :: "string \<Rightarrow> string outcome option" where
  "decompress input = huffman_decoder binary_converter_decode input"

section \<open>The merge array as the specification words it\<close>

text \<open>
  The specification's invariant of the merge array: every internal node combines the two
  smallest nodes not yet consumed at the time of its creation.  On the ascending list of the
  weights not yet consumed this is: take the first two, record their sum, and put the sum back
  in order.  \<open>two_smallest_merge\<close> returns the recorded sums in the order of creation; it is
  the reference against which \<open>build_huffman_array\<close> is compared.
\<close>

function two_smallest_merge :: "int list \<Rightarrow> int list" where
  "two_smallest_merge (x # y # ws) = (x + y) # two_smallest_merge (insort (x + y) ws)"
| "two_smallest_merge [x] = []"
| "two_smallest_merge [] = []"
  by pat_completeness auto
termination
  by (relation "measure length") auto


section \<open>Invariants of the loops\<close>

text \<open>The queue of \<open>generate_codes\<close> is a breadth-first frontier: it is ordered by code
  length, no entry is more than one bit longer than the head, and what has been emitted is no
  longer than what is still queued.\<close>

definition bfs_inv :: "(nat \<times> string) list \<Rightarrow> nat \<Rightarrow> (nat \<times> string) list \<Rightarrow> bool" where
  "bfs_inv pfxs current out \<longleftrightarrow>
     sorted (map (\<lambda>x. length (snd x)) pfxs)
   \<and> (current < length pfxs \<longrightarrow>
        (\<forall>e \<in> set pfxs. length (snd e) \<le> length (snd (pfxs ! current)) + 1))
   \<and> sorted (map (\<lambda>x. length (snd x)) out)
   \<and> (\<forall>e \<in> set out. \<forall>i. current \<le> i \<and> i < length pfxs \<longrightarrow>
        length (snd e) \<le> length (snd (pfxs ! i)))"

text \<open>The weights not yet consumed in the tree builder: the leaves from cursor \<open>f0\<close> on and
  the internal nodes from the \<open>q\<close>-th on.\<close>

definition avail :: "(int \<times> char) list \<Rightarrow> (int \<times> char) list \<Rightarrow> nat \<Rightarrow> nat \<Rightarrow> int list" where
  "avail L I f0 q = map fst (drop f0 L) @ map fst (drop q I)"


definition merge_array :: "(int \<times> char) list \<Rightarrow> (int \<times> char) list \<Rightarrow> bool" where
  "merge_array L I \<longleftrightarrow>
     2 \<le> length L \<and> length I = length L - 1
   \<and> sorted (map fst L) \<and> sorted (map fst I)
   \<and> (\<forall>b < length I. fst (L ! Suc b) \<le> fst (I ! b))"

definition rev_ok :: "(int \<times> 'u) list \<Rightarrow> nat \<Rightarrow> bool" where
  "rev_ok xs l1 \<longleftrightarrow>
     length xs = 2 * l1 + 1 \<and> 1 \<le> l1
   \<and> (\<forall>i j. i \<le> j \<and> j < l1 \<longrightarrow> fst (xs ! j) \<le> fst (xs ! i))
   \<and> (\<forall>i < l1. fst (xs ! (l1 + i)) \<le> fst (xs ! i))"

definition gen_inv ::
  "(int \<times> 'u) list \<Rightarrow> nat \<Rightarrow> nat \<Rightarrow> (nat \<times> string) list \<Rightarrow> nat \<Rightarrow> nat \<Rightarrow> nat \<Rightarrow>
   (nat \<times> string) list \<Rightarrow> bool" where
  "gen_inv xs l1 n Q c f0 f1 out \<longleftrightarrow>
     c + n = length xs \<and> c \<le> length Q \<and> f1 \<le> l1 \<and> l1 \<le> f0 \<and> f0 \<le> length xs
   \<and> filter (\<lambda>i. i < l1) (map fst Q) = [0..<f1]
   \<and> filter (\<lambda>i. \<not> i < l1) (map fst Q) = [l1..<f0]
   \<and> length Q = 1 + 2 * length (filter (\<lambda>i. i < l1) (map fst (take c Q)))
   \<and> (l1 < f0 \<and> f1 < l1 \<longrightarrow> fst (xs ! f1) < fst (xs ! (f0 - 1)))
   \<and> map fst out = filter (\<lambda>i. \<not> i < l1) (map fst (take c Q))"

definition antichain :: "string list \<Rightarrow> bool" where
  "antichain cs \<longleftrightarrow> distinct cs \<and> (\<forall>a \<in> set cs. \<forall>b \<in> set cs. prefix a b \<longrightarrow> a = b)"

definition code_inv ::
  "nat \<Rightarrow> nat \<Rightarrow> nat \<Rightarrow> (nat \<times> string) list \<Rightarrow> nat \<Rightarrow> (nat \<times> string) list \<Rightarrow> bool" where
  "code_inv l1 N n Q c out \<longleftrightarrow>
     c + n = N \<and> length Q \<le> N
   \<and> antichain (map snd out @ map snd (drop c Q))
   \<and> (c = 0 \<longrightarrow> out = [] \<and> (\<exists>r. Q = [(r, [])] \<and> r < l1))
   \<and> (0 < c \<longrightarrow> [] \<notin> set (map snd out @ map snd (drop c Q)))"

definition enc_node :: "('a \<Rightarrow> string) \<Rightarrow> 'a list \<Rightarrow> nat \<Rightarrow> nat \<Rightarrow> string" where
  "enc_node conv nodes k x = (if x < k then ''1'' @ conv (nodes ! x) else ''0'')"

definition merge_before :: "(int \<times> 'u) list \<Rightarrow> nat \<Rightarrow> nat \<Rightarrow> nat \<Rightarrow> bool" where
  "merge_before nodes k u v \<longleftrightarrow>
     (u < k \<and> k \<le> v \<longrightarrow> fst (nodes ! u) \<le> fst (nodes ! v))
   \<and> (k \<le> u \<and> v < k \<longrightarrow> fst (nodes ! u) < fst (nodes ! v))"


text \<open>The array that \<^verbatim>\<open>read_header\<close> rebuilds from a header that lists the nodes \<open>S\<close> of the
  array \<open>N\<close> with \<open>k\<close> leaves: the node listed at position \<open>i\<close> is stored at its own index, with
  \<open>i\<close> as its weight, and with its symbol if it is a leaf.\<close>

fun place :: "(int \<times> char) list \<Rightarrow> nat \<Rightarrow> nat \<Rightarrow> nat list \<Rightarrow> (int \<times> char) list \<Rightarrow> (int \<times> char) list" where
  "place N k i [] nodes = nodes"
| "place N k i (x # S) nodes =
     place N k (i + 1) S (nodes[x := (int i, if x < k then snd (N ! x) else CHR 0x00)])"

section \<open>The tie-break of the two-frontier selection\<close>

text \<open>
  Claim C6.  In \<open>next_node\<close> as the tree builder calls it (comparator \<open>compare_first (<)\<close>,
  leaf frontier \<open>f0\<close>, internal-node frontier \<open>f1\<close>, both non-empty): when the two heads
  have equal weight the leaf frontier is chosen; the internal-node frontier is chosen exactly
  when its head is strictly smaller, and the leaf frontier exactly when its head is not larger.
\<close>

theorem next_node_tie:
  fixes xs :: "('t::linorder \<times> 'u) list"
  assumes "f0 \<noteq> l0" "f1 \<noteq> l1" "f0 < length xs" "f1 < length xs"
  shows "(fst (xs ! f1) = fst (xs ! f0) \<longrightarrow>
           next_node (compare_first (<)) xs f0 l0 f1 l1 = Inr (f0, f0 + 1, f1))
       \<and> (next_node (compare_first (<)) xs f0 l0 f1 l1 = Inr (f1, f0, f1 + 1)
            \<longleftrightarrow> fst (xs ! f1) < fst (xs ! f0))
       \<and> (next_node (compare_first (<)) xs f0 l0 f1 l1 = Inr (f0, f0 + 1, f1)
            \<longleftrightarrow> fst (xs ! f0) \<le> fst (xs ! f1))"
  using assms by (auto simp: next_node_def compare_first_def)

theorem next_node_tie_witness:
  "next_node (compare_first (<)) [(2::int, CHR ''a''), (3, CHR ''b''), (2, CHR 0x00)] 0 2 2 3
     = Inr (0, 1, 2)"
  using next_node_tie [of 0 2 2 3 "[(2::int, CHR ''a''), (3, CHR ''b''), (2, CHR 0x00)]"]
  by simp

section \<open>generate_codes emits breadth-first\<close>

lemma generate_codes_loop_partial:
  assumes "generate_codes_loop cmp xs l0 l1 cap n pfxs current f0 f1 out = Inr res"
    and "I pfxs current f0 f1 out"
    and leaf: "\<And>pfxs current f0 f1 out. I pfxs current f0 f1 out \<Longrightarrow> current < length pfxs \<Longrightarrow>
        l1 \<le> fst (pfxs ! current) \<Longrightarrow> I pfxs (current + 1) f0 f1 (out @ [pfxs ! current])"
    and node: "\<And>pfxs current f0 f1 out x f0a f1a y f0b f1b. I pfxs current f0 f1 out \<Longrightarrow>
        current < length pfxs \<Longrightarrow> fst (pfxs ! current) < l1 \<Longrightarrow>
        next_node cmp xs f0 l0 f1 l1 = Inr (x, f0a, f1a) \<Longrightarrow>
        next_node cmp xs f0a l0 f1a l1 = Inr (y, f0b, f1b) \<Longrightarrow>
        length pfxs + 2 \<le> cap \<Longrightarrow>
        I (pfxs @ [(x, snd (pfxs ! current) @ ''1''), (y, snd (pfxs ! current) @ ''0'')])
          (current + 1) f0b f1b out"
  shows "\<exists>pfxs' current' f0' f1'. I pfxs' current' f0' f1' res"
  using assms(1,2)
proof (induction n arbitrary: pfxs current f0 f1 out)
  case 0
  then show ?case by auto
next
  case (Suc n)
  from Suc.prems(1) have cur: "current < length pfxs"
    by (auto split: if_splits)
  show ?case
  proof (cases "l1 \<le> fst (pfxs ! current)")
    case True
    with Suc.prems cur
    have "generate_codes_loop cmp xs l0 l1 cap n pfxs (current + 1) f0 f1 (out @ [pfxs ! current]) = Inr res"
      by simp
    moreover have "I pfxs (current + 1) f0 f1 (out @ [pfxs ! current])"
      using leaf [OF Suc.prems(2) cur True] .
    ultimately show ?thesis by (rule Suc.IH)
  next
    case False
    with Suc.prems(1) cur obtain x f0a f1a y f0b f1b where
      n1: "next_node cmp xs f0 l0 f1 l1 = Inr (x, f0a, f1a)" and
      n2: "next_node cmp xs f0a l0 f1a l1 = Inr (y, f0b, f1b)" and
      cap: "length pfxs + 2 \<le> cap" and
      r: "generate_codes_loop cmp xs l0 l1 cap n
            (pfxs @ [(x, snd (pfxs ! current) @ ''1''), (y, snd (pfxs ! current) @ ''0'')])
            (current + 1) f0b f1b out = Inr res"
      by (auto split: sum.splits if_splits prod.splits)
    from False have lt: "fst (pfxs ! current) < l1" by simp
    show ?thesis
      using Suc.IH [OF r node [OF Suc.prems(2) cur lt n1 n2 cap]] .
  qed
qed

lemma sorted_map_nth_mono:
  "sorted (map f xs) \<Longrightarrow> i \<le> j \<Longrightarrow> j < length xs \<Longrightarrow> f (xs ! i) \<le> f (xs ! j)"
  using sorted_nth_mono [of "map f xs" i j] by simp

lemma bfs_inv_leaf:
  assumes "bfs_inv pfxs current out" "current < length pfxs"
  shows "bfs_inv pfxs (current + 1) (out @ [pfxs ! current])"
proof -
  let ?len = "\<lambda>x::nat \<times> string. length (snd x)"
  have s: "sorted (map ?len pfxs)" using assms by (simp add: bfs_inv_def)
  have mono: "\<And>i j. i \<le> j \<Longrightarrow> j < length pfxs \<Longrightarrow> ?len (pfxs ! i) \<le> ?len (pfxs ! j)"
    using sorted_map_nth_mono [OF s] by simp
  show ?thesis
    unfolding bfs_inv_def
  proof (intro conjI)
    show "sorted (map ?len pfxs)" by (rule s)
    show "current + 1 < length pfxs \<longrightarrow>
        (\<forall>e \<in> set pfxs. ?len e \<le> ?len (pfxs ! (current + 1)) + 1)"
      using assms mono [of current "current + 1"] unfolding bfs_inv_def by fastforce
    show "sorted (map ?len (out @ [pfxs ! current]))"
      using assms unfolding bfs_inv_def by (auto simp: sorted_append)
    show "\<forall>e \<in> set (out @ [pfxs ! current]). \<forall>i. current + 1 \<le> i \<and> i < length pfxs \<longrightarrow>
        ?len e \<le> ?len (pfxs ! i)"
      using assms mono unfolding bfs_inv_def by auto
  qed
qed

lemma bfs_inv_node:
  assumes "bfs_inv pfxs current out" "current < length pfxs"
  shows "bfs_inv (pfxs @ [(x, snd (pfxs ! current) @ ''1''), (y, snd (pfxs ! current) @ ''0'')])
           (current + 1) out"
proof -
  let ?len = "\<lambda>x::nat \<times> string. length (snd x)"
  let ?c = "snd (pfxs ! current)"
  define p where "p = pfxs @ [(x, ?c @ ''1''), (y, ?c @ ''0'')]"
  have s: "sorted (map ?len pfxs)" using assms by (simp add: bfs_inv_def)
  have b: "\<forall>e \<in> set pfxs. ?len e \<le> length ?c + 1"
    using assms by (simp add: bfs_inv_def)
  have s': "sorted (map ?len p)"
    unfolding p_def using s b by (simp add: sorted_append)
  have cur: "p ! current = pfxs ! current" using assms(2) by (simp add: p_def nth_append)
  have all: "\<forall>e \<in> set p. ?len e \<le> length ?c + 1"
    using b by (simp add: p_def)
  have "bfs_inv p (current + 1) out"
    unfolding bfs_inv_def
  proof (intro conjI)
    show "sorted (map ?len p)" by (rule s')
    show "current + 1 < length p \<longrightarrow> (\<forall>e \<in> set p. ?len e \<le> ?len (p ! (current + 1)) + 1)"
    proof (intro impI ballI)
      fix e assume lt: "current + 1 < length p" and e: "e \<in> set p"
      have "?len e \<le> length ?c + 1" using all e by blast
      moreover have "length ?c \<le> ?len (p ! (current + 1))"
        using sorted_map_nth_mono [OF s', of current "current + 1"] lt cur by simp
      ultimately show "?len e \<le> ?len (p ! (current + 1)) + 1" by simp
    qed
    show "sorted (map ?len out)" using assms by (simp add: bfs_inv_def)
    show "\<forall>e \<in> set out. \<forall>i. current + 1 \<le> i \<and> i < length p \<longrightarrow> ?len e \<le> ?len (p ! i)"
    proof (intro ballI allI impI)
      fix e i assume e: "e \<in> set out" and i: "current + 1 \<le> i \<and> i < length p"
      have "?len e \<le> length ?c"
        using assms e unfolding bfs_inv_def by auto
      moreover have "length ?c \<le> ?len (p ! i)"
        using sorted_map_nth_mono [OF s', of current i] i cur by simp
      ultimately show "?len e \<le> ?len (p ! i)" by simp
    qed
  qed
  then show ?thesis by (simp add: p_def)
qed

lemma generate_codes_loop_sorted:
  assumes "generate_codes_loop cmp xs l0 l1 cap n pfxs current f0 f1 out = Inr res"
    and "bfs_inv pfxs current out"
  shows "sorted (map (\<lambda>x. length (snd x)) res)"
proof -
  have "\<exists>pfxs' current' (f0'::nat) (f1'::nat). bfs_inv pfxs' current' res"
  proof (rule generate_codes_loop_partial [where I = "\<lambda>p c f0 f1 out. bfs_inv p c out", OF assms],
      goal_cases)
    case (1 pfxs current f0 f1 out)
    then show ?case using bfs_inv_leaf by simp
  next
    case (2 pfxs current f0 f1 out x f0a f1a y f0b f1b)
    then show ?case using bfs_inv_node by simp
  qed
  then show ?thesis by (auto simp: bfs_inv_def)
qed

lemma generate_codes_sorted_lengths:
  assumes "generate_codes cmp xs f0 l0 f1 l1 = Inr out"
  shows "sorted (map (\<lambda>x. length (snd x)) out)"
proof -
  from assms have "generate_codes_loop cmp xs l0 l1 (l0 - f1) (l0 - f1) [(f1, [])] 0 f0 (f1 + 1) [] = Inr out"
    by (auto simp: generate_codes_def split: if_splits)
  moreover have "bfs_inv [(f1, [])] 0 []" by (simp add: bfs_inv_def)
  ultimately show ?thesis by (rule generate_codes_loop_sorted)
qed


text \<open>
  Claim C10.  Whenever \<open>generate_codes\<close> returns, the codes of the pairs it has emitted, in
  the order of emission, are of non-decreasing length.
\<close>

theorem generate_codes_length_order:
  assumes "generate_codes cmp xs f0 l0 f1 l1 = Inr out"
  shows "sorted (map (\<lambda>x. length (snd x)) out)"
  using assms by (rule generate_codes_sorted_lengths)

theorem generate_codes_length_order_witness:
  "\<exists>out. generate_codes (not2 (compare_first (<)))
           [(4::int, CHR 0x00), (2, CHR 0x00), (2, CHR ''a''), (1, CHR ''b''), (1, CHR ''c'')]
           2 5 0 2 = Inr out
     \<and> out = [(2, ''0''), (3, ''11''), (4, ''10'')]
     \<and> sorted (map (\<lambda>x. length (snd x)) out)"
proof -
  have h: "generate_codes (not2 (compare_first (<)))
           [(4::int, CHR 0x00), (2, CHR 0x00), (2, CHR ''a''), (1, CHR ''b''), (1, CHR ''c'')]
           2 5 0 2 = Inr [(2, ''0''), (3, ''11''), (4, ''10'')]"
    by code_simp
  from h generate_codes_length_order [OF h] show ?thesis by blast
qed

section \<open>The frequency table\<close>

lemma adjacent_count_loop_eq:
  "adjacent_count_loop n (x # xs) =
     (n + 1 + int (length (takeWhile (\<lambda>y. y = x) xs)), dropWhile (\<lambda>y. y = x) xs)"
  by (induction n "x # xs" arbitrary: x xs rule: adjacent_count_loop.induct) auto

lemma unique_copy_with_count_Cons:
  "unique_copy_with_count (x # xs) =
     (1 + int (length (takeWhile (\<lambda>y. y = x) xs)), x)
       # unique_copy_with_count (dropWhile (\<lambda>y. y = x) xs)"
  by (simp add: adjacent_count_def adjacent_count_loop_eq Let_def)

lemma unique_copy_with_count_snd: "map snd (unique_copy_with_count xs) = remdups_adj xs"
proof (induction xs rule: length_induct)
  case (1 xs)
  show ?case
  proof (cases xs)
    case Nil
    then show ?thesis by simp
  next
    case (Cons x ys)
    have "length (dropWhile (\<lambda>y. y = x) ys) < length xs"
      using Cons length_dropWhile_le [of "\<lambda>y. y = x" ys] by simp
    with 1 have "map snd (unique_copy_with_count (dropWhile (\<lambda>y. y = x) ys))
        = remdups_adj (dropWhile (\<lambda>y. y = x) ys)" by blast
    then show ?thesis
      unfolding Cons unique_copy_with_count_Cons remdups_adj_Cons' by simp
  qed
qed

lemma unique_copy_with_count_pos_all: "\<forall>p \<in> set (unique_copy_with_count xs). 1 \<le> fst p"
proof (induction xs rule: length_induct)
  case (1 xs)
  show ?case
  proof (cases xs)
    case Nil
    then show ?thesis by simp
  next
    case (Cons x ys)
    have "length (dropWhile (\<lambda>y. y = x) ys) < length xs"
      using Cons length_dropWhile_le [of "\<lambda>y. y = x" ys] by simp
    with 1 have "\<forall>p \<in> set (unique_copy_with_count (dropWhile (\<lambda>y. y = x) ys)). 1 \<le> fst p"
      by blast
    then show ?thesis
      unfolding Cons unique_copy_with_count_Cons by simp
  qed
qed

lemma unique_copy_with_count_pos: "p \<in> set (unique_copy_with_count xs) \<Longrightarrow> 1 \<le> fst p"
  using unique_copy_with_count_pos_all by blast

lemma sorted_remdups_adj_strict:
  fixes xs :: "'a::linorder list"
  shows "sorted xs \<Longrightarrow> sorted_wrt (<) (remdups_adj xs)"
  by (induction xs rule: remdups_adj.induct) (auto simp: less_le)

lemma frequencies_distinct: "distinct (map snd (unique_copy_with_count (sort input)))"
  using sorted_remdups_adj_strict [of "sort input"]
  by (simp add: unique_copy_with_count_snd strict_sorted_iff)

lemma frequencies_set: "snd ` set (unique_copy_with_count (sort input)) = set input"
  using arg_cong [OF unique_copy_with_count_snd [of "sort input"], of set] by simp

lemma frequencies_length: "length (unique_copy_with_count (sort input)) = card (set input)"
proof -
  have "length (unique_copy_with_count (sort input))
      = length (map snd (unique_copy_with_count (sort input)))" by simp
  also have "\<dots> = card (set (map snd (unique_copy_with_count (sort input))))"
    using distinct_card [OF frequencies_distinct [of input]] by simp
  also have "\<dots> = card (set input)" using frequencies_set [of input] by simp
  finally show ?thesis .
qed

lemma std_sort_length: "std_sort srt \<Longrightarrow> length (srt xs) = length xs"
  unfolding std_sort_def by (metis size_mset)

lemma std_sort_sort_key: "std_sort (sort_key fst)"
  by (simp add: std_sort_def)

section \<open>Fewer than two distinct symbols\<close>

text \<open>
  Claim C8 says that \<open>compress\<close> fails with an explicit \<open>InsufficientAlphabet\<close> error on an
  input with fewer than two distinct symbols.  The program has no such error and no check of
  the alphabet: for \<open>"aaaa"\<close> the frequency table has one entry, and
  \<open>build_huffman_array\<close> reads \<open>nodes[1]\<close> of a one-element vector.
\<close>

theorem compress_aaaa_undefined:
  "compress (sort_key fst) ''aaaa'' = Some (Inl UndefinedBehaviour)"
  by code_simp

text \<open>
  Claim C8 as amended.  For every input with fewer than two distinct symbols \<open>compress\<close>
  produces no output and reports no \<open>InsufficientAlphabet\<close>: on the empty input
  \<open>vector::reserve\<close> throws \<open>std::length_error\<close> (the node count \<open>size * 2 - 1\<close> wraps), and
  on an input with one distinct symbol \<open>build_huffman_array\<close> indexes outside the vector,
  which is undefined behaviour.
\<close>

theorem compress_insufficient_alphabet:
  assumes "std_sort srt" and "card (set input) < 2"
  shows "compress srt input = Some (Inl (if input = [] then LengthError else UndefinedBehaviour))"
proof -
  have len: "length (srt (unique_copy_with_count (sort input))) = card (set input)"
    using std_sort_length [OF assms(1)] frequencies_length by simp
  have "input = [] \<longleftrightarrow> card (set input) = 0" by simp
  with assms(2) len show ?thesis
    by (auto simp: compress_def huffman_encoder_def build_huffman_array_def Let_def)
qed

theorem compress_insufficient_alphabet_witness:
  "compress (sort_key fst) [] = Some (Inl LengthError)
   \<and> compress (sort_key fst) ''zz'' = Some (Inl UndefinedBehaviour)"
  using compress_insufficient_alphabet [OF std_sort_sort_key, of "[]"]
    compress_insufficient_alphabet [OF std_sort_sort_key, of "''zz''"]
  by simp

section \<open>The tree builder\<close>


lemma two_smallest_merge_length: "length (two_smallest_merge ws) = length ws - 1"
  by (induction ws rule: two_smallest_merge.induct) auto

lemma sum_list_insort_int: "sum_list (insort a ws) = a + sum_list (ws :: int list)"
  by (induction ws) auto

lemma two_smallest_merge_last:
  "2 \<le> length ws \<Longrightarrow> last (two_smallest_merge ws) = sum_list ws"
proof (induction ws rule: two_smallest_merge.induct)
  case (1 x y ws)
  show ?case
  proof (cases ws)
    case Nil
    then show ?thesis by simp
  next
    case (Cons a as)
    then have "2 \<le> length (insort (x + y) ws)" by simp
    from 1(1) [OF this] have "last (two_smallest_merge (insort (x + y) ws)) = x + y + sum_list ws"
      by (simp add: sum_list_insort_int)
    moreover have "two_smallest_merge (insort (x + y) ws) \<noteq> []"
      using two_smallest_merge_length [of "insort (x + y) ws"] Cons
      by (auto simp flip: length_0_conv)
    ultimately show ?thesis by simp
  qed
qed auto

lemma sort_min_Cons:
  fixes a :: "'a::linorder"
  assumes "mset xs = add_mset a (mset ys)" "\<forall>y \<in> set ys. a \<le> y"
  shows "sort xs = a # sort ys"
  by (rule properties_for_sort) (use assms in auto)

lemma sort_snoc_insort:
  fixes a :: "'a::linorder"
  shows "sort (ys @ [a]) = insort a (sort ys)"
  by (rule properties_for_sort) (auto simp: sorted_insort)


lemma avail_leaf: "f0 < length L \<Longrightarrow> avail L I f0 q = fst (L ! f0) # avail L I (Suc f0) q"
  by (simp add: avail_def flip: Cons_nth_drop_Suc)

lemma avail_internal:
  "q < length I \<Longrightarrow> mset (avail L I f0 q) = add_mset (fst (I ! q)) (mset (avail L I f0 (Suc q)))"
  by (simp add: avail_def flip: Cons_nth_drop_Suc)

lemma sorted_drop_hd_le:
  assumes "sorted (map fst (drop i xs))" "i < length xs" "y \<in> set (map fst (drop i xs))"
  shows "fst (xs ! i) \<le> y"
proof -
  have "map fst (drop i xs) = fst (xs ! i) # map fst (drop (Suc i) xs)"
    using assms(2) by (simp flip: Cons_nth_drop_Suc)
  with assms(1,3) show ?thesis by auto
qed

lemma sorted_drop_Suc: "sorted (map fst (drop i xs)) \<Longrightarrow> sorted (map fst (drop (Suc i) xs))"
  using sorted_wrt_drop [of "(\<le>)" "map fst (drop i xs)" 1] by (simp add: drop_map)

lemma next_node_build:
  fixes L I :: "(int \<times> char) list"
  assumes "f0 \<le> length L" "q \<le> length I" "f0 < length L \<or> q < length I"
    "sorted (map fst (drop f0 L))" "sorted (map fst (drop q I))"
  obtains x f0' q' where
    "next_node (compare_first (<)) (L @ I) f0 (length L) (length L + q) (length (L @ I))
       = Inr (x, f0', length L + q')"
    "x < length (L @ I)" "f0' \<le> length L" "q' \<le> length I"
    "x = f0 \<and> f0 < length L \<and> f0' = f0 + 1 \<and> q' = q
      \<or> x = length L + q \<and> q < length I \<and> q' = q + 1 \<and> f0' = f0"
    "mset (avail L I f0 q) = add_mset (fst ((L @ I) ! x)) (mset (avail L I f0' q'))"
    "\<forall>y \<in> set (avail L I f0' q'). fst ((L @ I) ! x) \<le> y"
    "sorted (map fst (drop f0' L))" "sorted (map fst (drop q' I))"
proof -
  note R = that
  let ?nn = "next_node (compare_first (<)) (L @ I) f0 (length L) (length L + q) (length (L @ I))"
  have leafcase: thesis
    if nn: "?nn = Inr (f0, f0 + 1, length L + q)" and f0: "f0 < length L"
      and le: "q < length I \<Longrightarrow> fst (L ! f0) \<le> fst (I ! q)"
  proof (rule R [of f0 "f0 + 1" q])
    show "?nn = Inr (f0, f0 + 1, length L + q)" by (rule nn)
    show "f0 < length (L @ I)" using f0 by simp
    show "f0 + 1 \<le> length L" using f0 by simp
    show "q \<le> length I" by (rule assms(2))
    show "f0 = f0 \<and> f0 < length L \<and> f0 + 1 = f0 + 1 \<and> q = q
      \<or> f0 = length L + q \<and> q < length I \<and> q = q + 1 \<and> f0 + 1 = f0" using f0 by simp
    show "mset (avail L I f0 q) = add_mset (fst ((L @ I) ! f0)) (mset (avail L I (f0 + 1) q))"
      using f0 by (simp add: avail_leaf nth_append)
    show "\<forall>y \<in> set (avail L I (f0 + 1) q). fst ((L @ I) ! f0) \<le> y"
    proof
      fix y assume "y \<in> set (avail L I (f0 + 1) q)"
      then consider "y \<in> set (map fst (drop (Suc f0) L))" | "y \<in> set (map fst (drop q I))"
        by (auto simp: avail_def)
      then have "fst (L ! f0) \<le> y"
      proof cases
        case 1
        then have "y \<in> set (map fst (drop f0 L))"
          by (metis in_set_dropD drop_map drop_Suc tl_drop drop_drop list.set_sel(2) tl_Nil)
        then show ?thesis using sorted_drop_hd_le [OF assms(4) f0] by blast
      next
        case 2
        then have q: "q < length I" by (cases "q < length I") auto
        from sorted_drop_hd_le [OF assms(5) q 2] le [OF q] show ?thesis by simp
      qed
      then show "fst ((L @ I) ! f0) \<le> y" using f0 by (simp add: nth_append)
    qed
    show "sorted (map fst (drop (f0 + 1) L))" using sorted_drop_Suc [OF assms(4)] by simp
    show "sorted (map fst (drop q I))" by (rule assms(5))
  qed
  have intcase: thesis
    if nn: "?nn = Inr (length L + q, f0, length L + q + 1)" and q: "q < length I"
      and le: "f0 < length L \<Longrightarrow> fst (I ! q) \<le> fst (L ! f0)"
  proof (rule R [of "length L + q" f0 "q + 1"])
    show "?nn = Inr (length L + q, f0, length L + (q + 1))" using nn by simp
    show "length L + q < length (L @ I)" using q by simp
    show "f0 \<le> length L" by (rule assms(1))
    show "q + 1 \<le> length I" using q by simp
    show "length L + q = f0 \<and> f0 < length L \<and> f0 = f0 + 1 \<and> q + 1 = q
      \<or> length L + q = length L + q \<and> q < length I \<and> q + 1 = q + 1 \<and> f0 = f0" using q by simp
    show "mset (avail L I f0 q) = add_mset (fst ((L @ I) ! (length L + q))) (mset (avail L I f0 (q + 1)))"
      using q by (simp add: avail_internal)
    show "\<forall>y \<in> set (avail L I f0 (q + 1)). fst ((L @ I) ! (length L + q)) \<le> y"
    proof
      fix y assume "y \<in> set (avail L I f0 (q + 1))"
      then consider "y \<in> set (map fst (drop f0 L))" | "y \<in> set (map fst (drop (Suc q) I))"
        by (auto simp: avail_def)
      then have "fst (I ! q) \<le> y"
      proof cases
        case 1
        then have f0: "f0 < length L" by (cases "f0 < length L") auto
        from sorted_drop_hd_le [OF assms(4) f0 1] le [OF f0] show ?thesis by simp
      next
        case 2
        then have "y \<in> set (map fst (drop q I))"
          by (metis in_set_dropD drop_map drop_Suc tl_drop drop_drop list.set_sel(2) tl_Nil)
        then show ?thesis using sorted_drop_hd_le [OF assms(5) q] by blast
      qed
      then show "fst ((L @ I) ! (length L + q)) \<le> y" by simp
    qed
    show "sorted (map fst (drop f0 L))" by (rule assms(4))
    show "sorted (map fst (drop (q + 1) I))" using sorted_drop_Suc [OF assms(5)] by simp
  qed
  show thesis
  proof (cases "q = length I")
    case True
    with assms(3) have f0: "f0 < length L" by simp
    show thesis
      by (rule leafcase) (use True f0 in \<open>simp_all add: next_node_def\<close>)
  next
    case False
    with assms(2) have q: "q < length I" by simp
    show thesis
    proof (cases "f0 = length L")
      case True
      show thesis
        by (rule intcase) (use True q in \<open>simp_all add: next_node_def\<close>)
    next
      case F: False
      with assms(1) have f0: "f0 < length L" by simp
      show thesis
      proof (cases "fst (I ! q) < fst (L ! f0)")
        case True
        show thesis
          by (rule intcase)
            (use True q f0 in \<open>simp_all add: next_node_def compare_first_def nth_append\<close>)
      next
        case False
        show thesis
          by (rule leafcase)
            (use False q f0 in \<open>simp_all add: next_node_def compare_first_def nth_append\<close>)
      qed
    qed
  qed
qed



lemma sorted_le_last: "sorted (xs :: int list) \<Longrightarrow> e \<in> set xs \<Longrightarrow> e \<le> last xs"
  by (induction xs) auto

lemma nth_in_butlast_drop: "q + 1 < length I \<Longrightarrow> I ! q \<in> set (butlast (drop q I))"
proof -
  assume a: "q + 1 < length I"
  then have "drop q I = I ! q # drop (Suc q) I" "drop (Suc q) I \<noteq> []"
    by (simp_all flip: Cons_nth_drop_Suc)
  then show ?thesis by simp
qed

lemma avail_snoc: "q \<le> length I \<Longrightarrow> avail L (I @ [z]) f0 q = avail L I f0 q @ [fst z]"
  by (simp add: avail_def)

lemma avail_length: "f0 \<le> length L \<Longrightarrow> q \<le> length I \<Longrightarrow>
    length (avail L I f0 q) = (length L - f0) + (length I - q)"
  by (simp add: avail_def)

lemma build_loop_refines:
  fixes L I :: "(int \<times> char) list"
  assumes "f0 \<le> length L" "q < length I"
    "sorted (map fst (drop f0 L))" "sorted (map fst (drop q I))"
    "\<forall>e \<in> set (map fst (drop f0 L)). m \<le> e"
    "\<forall>e \<in> set (map fst (butlast (drop q I))). m \<le> e"
    "fst (last I) \<le> 2 * m"
    "Suc A = (length L - f0) + (length I - q)"
    "n = length L + length I + A"
  shows "build_huffman_array_loop (compare_first (<)) (merge_first_op (+)) (L @ I) f0 (length L)
           (length L + q) n
         = Some (Inr (L @ I @ map (\<lambda>w. (w, CHR 0x00)) (two_smallest_merge (sort (avail L I f0 q)))))"
  using assms
proof (induction A arbitrary: I f0 q m)
  case 0
  then have "length (avail L I f0 q) = 1" by (simp add: avail_length)
  then obtain w where "avail L I f0 q = [w]"
    by (metis One_nat_def length_0_conv length_Suc_conv)
  with 0 show ?case
    by (subst build_huffman_array_loop.simps) simp
next
  case (Suc A)
  let ?cmp = "compare_first ((<) :: int \<Rightarrow> int \<Rightarrow> bool)"
  let ?op = "merge_first_op ((+) :: int \<Rightarrow> int \<Rightarrow> int)"
  have ne1: "f0 < length L \<or> q < length I" using Suc.prems by simp
  from next_node_build [OF Suc.prems(1) less_imp_le [OF Suc.prems(2)] ne1 Suc.prems(3,4)]
  obtain x f0a qa where
    n1: "next_node ?cmp (L @ I) f0 (length L) (length L + q) (length (L @ I))
          = Inr (x, f0a, length L + qa)" and
    x: "x < length (L @ I)" and f0a: "f0a \<le> length L" and qa: "qa \<le> length I" and
    px: "x = f0 \<and> f0 < length L \<and> f0a = f0 + 1 \<and> qa = q
          \<or> x = length L + q \<and> q < length I \<and> qa = q + 1 \<and> f0a = f0" and
    m1: "mset (avail L I f0 q) = add_mset (fst ((L @ I) ! x)) (mset (avail L I f0a qa))" and
    min1: "\<forall>y \<in> set (avail L I f0a qa). fst ((L @ I) ! x) \<le> y" and
    s1: "sorted (map fst (drop f0a L))" "sorted (map fst (drop qa I))"
    by blast
  have cnt1: "Suc A = (length L - f0a) + (length I - qa)"
    using px Suc.prems(8) by auto
  then have ne2: "f0a < length L \<or> qa < length I" by auto
  from next_node_build [OF f0a qa ne2 s1]
  obtain y f0b qb where
    n2: "next_node ?cmp (L @ I) f0a (length L) (length L + qa) (length (L @ I))
          = Inr (y, f0b, length L + qb)" and
    y: "y < length (L @ I)" and f0b: "f0b \<le> length L" and qb: "qb \<le> length I" and
    py: "y = f0a \<and> f0a < length L \<and> f0b = f0a + 1 \<and> qb = qa
          \<or> y = length L + qa \<and> qa < length I \<and> qb = qa + 1 \<and> f0b = f0a" and
    m2: "mset (avail L I f0a qa) = add_mset (fst ((L @ I) ! y)) (mset (avail L I f0b qb))" and
    min2: "\<forall>y' \<in> set (avail L I f0b qb). fst ((L @ I) ! y) \<le> y'" and
    s2: "sorted (map fst (drop f0b L))" "sorted (map fst (drop qb I))"
    by blast
  define a where "a = fst ((L @ I) ! x)"
  define b where "b = fst ((L @ I) ! y)"
  define z where "z = ?op ((L @ I) ! x) ((L @ I) ! y)"
  have z: "z = (a + b, CHR 0x00)" by (simp add: z_def a_def b_def merge_first_op_def)
  have cnt2: "A = (length L - f0b) + (length I - qb)"
    using py cnt1 by auto
  have ab: "a \<le> b"
  proof -
    have "b \<in> set (avail L I f0a qa)"
      using m2 unfolding b_def by (metis set_mset_mset union_single_eq_member)
    with min1 show ?thesis by (simp add: a_def)
  qed
  have sort1: "sort (avail L I f0 q) = a # b # sort (avail L I f0b qb)"
  proof -
    have "sort (avail L I f0a qa) = b # sort (avail L I f0b qb)"
      using sort_min_Cons [OF m2 min2] by (simp add: b_def)
    moreover have "sort (avail L I f0 q) = a # sort (avail L I f0a qa)"
      using sort_min_Cons [OF m1 min1] by (simp add: a_def)
    ultimately show ?thesis by simp
  qed
  have sort2: "sort (avail L (I @ [z]) f0b qb) = insort (a + b) (sort (avail L I f0b qb))"
    using qb by (simp add: avail_snoc sort_snoc_insort z)
  \<comment> \<open>the queue stays sorted\<close>
  have not_last: "m \<le> fst ((L @ I) ! v)"
    if "v = f0' \<and> f0' < length L \<and> f0 \<le> f0' \<or> v = length L + q' \<and> q \<le> q' \<and> q' + 1 < length I"
    for v f0' q'
    using that
  proof (elim disjE conjE)
    assume "v = f0'" "f0' < length L" "f0 \<le> f0'"
    then have "drop f0 L ! (f0' - f0) = L ! f0'" "f0' - f0 < length (drop f0 L)"
      by simp_all
    then have "L ! f0' \<in> set (drop f0 L)" by (metis nth_mem)
    then have "m \<le> fst (L ! f0')" using Suc.prems(5) by simp
    with \<open>v = f0'\<close> \<open>f0' < length L\<close> show ?thesis by (simp add: nth_append)
  next
    assume v: "v = length L + q'" "q \<le> q'" "q' + 1 < length I"
    have "I ! q' \<in> set (butlast (drop q' I))" using nth_in_butlast_drop [OF v(3)] .
    also have "butlast (drop q' I) = drop (q' - q) (butlast (drop q I))"
      using v(2) by (simp add: butlast_drop)
    finally have "I ! q' \<in> set (butlast (drop q I))" by (rule in_set_dropD)
    with Suc.prems(6) v show ?thesis by simp
  qed
  have sq: "sorted (map fst (drop qb (I @ [z])))"
  proof (cases "qb = length I")
    case True
    then show ?thesis by simp
  next
    case False
    with qb have qbl: "qb < length I" by simp
    have am: "m \<le> a" unfolding a_def
      using px py qbl by (intro not_last [of x f0 q]) auto
    have bm: "m \<le> b" unfolding b_def
      using px py qbl by (intro not_last [of y f0a qa]) auto
    have "e \<le> a + b" if "e \<in> set (map fst (drop qb I))" for e
    proof -
      have "e \<le> last (map fst (drop qb I))" using sorted_le_last [OF s2(2) that] .
      also have "\<dots> = fst (last I)" using qbl by (simp add: last_map)
      also have "\<dots> \<le> a + b" using Suc.prems(7) am bm by simp
      finally show ?thesis .
    qed
    with s2(2) qb show ?thesis by (auto simp: sorted_append z)
  qed
  have minb: "\<forall>e \<in> set (avail L I f0b qb). b \<le> e" using min2 by (simp add: b_def)
  have IH: "build_huffman_array_loop ?cmp ?op (L @ (I @ [z])) f0b (length L) (length L + qb) n
      = Some (Inr (L @ (I @ [z]) @ map (\<lambda>w. (w, CHR 0x00))
          (two_smallest_merge (sort (avail L (I @ [z]) f0b qb)))))"
  proof (rule Suc.IH [where m = b])
    show "f0b \<le> length L" by (rule f0b)
    show "qb < length (I @ [z])" using qb by simp
    show "sorted (map fst (drop f0b L))" by (rule s2)
    show "sorted (map fst (drop qb (I @ [z])))" by (rule sq)
    show "\<forall>e \<in> set (map fst (drop f0b L)). b \<le> e" using minb by (simp add: avail_def)
    show "\<forall>e \<in> set (map fst (butlast (drop qb (I @ [z])))). b \<le> e"
      using minb qb by (simp add: avail_def butlast_append)
    show "fst (last (I @ [z])) \<le> 2 * b" using ab by (simp add: z)
    show "Suc A = length L - f0b + (length (I @ [z]) - qb)" using cnt2 qb by simp
    show "n = length L + length (I @ [z]) + A" using Suc.prems(9) by simp
  qed
  have neq: "length (L @ I) \<noteq> n" using Suc.prems(9) by simp
  have "build_huffman_array_loop ?cmp ?op (L @ I) f0 (length L) (length L + q) n
      = build_huffman_array_loop ?cmp ?op ((L @ I) @ [z]) f0b (length L) (length L + qb) n"
    by (subst build_huffman_array_loop.simps) (simp only: neq n1 n2 z_def if_False sum.case prod.case)
  also have "\<dots> = Some (Inr (L @ I @ map (\<lambda>w. (w, CHR 0x00))
          (two_smallest_merge (sort (avail L I f0 q)))))"
    using IH by (simp add: sort1 sort2 [unfolded z] z)
  finally show ?case .
qed



lemma build_huffman_array_eq:
  fixes leaves :: "(int \<times> char) list"
  assumes "sorted (map fst leaves)" "2 \<le> length leaves"
  shows "build_huffman_array (compare_first (<)) (merge_first_op (+)) leaves
     = Some (Inr (leaves @ map (\<lambda>w. (w, CHR 0x00)) (two_smallest_merge (map fst leaves))))"
proof -
  from assms(2) obtain l0 l1 rest where leaves: "leaves = l0 # l1 # rest"
    by (metis Suc_le_length_iff numeral_2_eq_2)
  define z where "z = merge_first_op ((+) :: int \<Rightarrow> int \<Rightarrow> int) l0 l1"
  have z: "z = (fst l0 + fst l1, CHR 0x00)" by (simp add: z_def merge_first_op_def)
  have srest: "sorted (map fst rest)" "\<forall>e \<in> set (map fst rest). fst l1 \<le> e" "fst l0 \<le> fst l1"
    using assms(1) by (auto simp: leaves)
  have av: "sort (avail leaves [z] 2 0) = insort (fst l0 + fst l1) (map fst rest)"
    using srest(1) by (simp add: avail_def leaves z sort_snoc_insort sorted_sort_id)
  let ?f = "\<lambda>w::int. (w, CHR 0x00)"
  have loop: "build_huffman_array_loop (compare_first (<)) (merge_first_op (+)) (leaves @ [z]) 2
          (length leaves) (length leaves + 0) (length leaves + length [z] + (length leaves - 2))
      = Some (Inr (leaves @ [z] @ map ?f (two_smallest_merge (sort (avail leaves [z] 2 0)))))"
  proof (rule build_loop_refines [where m = "fst l1"])
    show "2 \<le> length leaves" by (rule assms(2))
    show "0 < length [z]" by simp
    show "sorted (map fst (drop 2 leaves))" using srest by (simp add: leaves)
    show "sorted (map fst (drop 0 [z]))" by simp
    show "\<forall>e \<in> set (map fst (drop 2 leaves)). fst l1 \<le> e" using srest by (simp add: leaves)
    show "\<forall>e \<in> set (map fst (butlast (drop 0 [z]))). fst l1 \<le> e" by simp
    show "fst (last [z]) \<le> 2 * fst l1" using srest by (simp add: z)
    show "Suc (length leaves - 2) = length leaves - 2 + (length [z] - 0)" by simp
    show "length leaves + length [z] + (length leaves - 2)
        = length leaves + length [z] + (length leaves - 2)" by simp
  qed
  have N: "length leaves + length [z] + (length leaves - 2) = length leaves * 2 - 1"
    using assms(2) by simp
  have tsm: "two_smallest_merge (map fst leaves)
      = (fst l0 + fst l1) # two_smallest_merge (sort (avail leaves [z] 2 0))"
    unfolding av by (simp add: leaves)
  have res: "leaves @ [z] @ map ?f (two_smallest_merge (sort (avail leaves [z] 2 0)))
      = leaves @ map ?f (two_smallest_merge (map fst leaves))"
    unfolding tsm by (simp add: z)
  have zz: "merge_first_op (+) (leaves ! 0) (leaves ! 1) = z"
    by (simp add: z_def leaves)
  have sz: "(length leaves = 0) = False" "(length leaves < 2) = False"
    using assms(2) by (auto simp: leaves)
  have "build_huffman_array (compare_first (<)) (merge_first_op (+)) leaves
      = build_huffman_array_loop (compare_first (<)) (merge_first_op (+)) (leaves @ [z]) 2
          (length leaves) (length leaves) (length leaves * 2 - 1)"
    unfolding build_huffman_array_def Let_def zz using sz by (simp only: if_False)
  also have "\<dots> = Some (Inr (leaves @ map ?f (two_smallest_merge (map fst leaves))))"
    using loop unfolding N res add_0_right .
  finally show ?thesis .
qed

lemma sum_list_abs_insort:
  "sum_list (map abs (insort a ws)) = \<bar>a\<bar> + sum_list (map abs (ws :: int list))"
  by (induction ws) auto

lemma two_smallest_merge_abs_bound:
  "s \<in> set (two_smallest_merge ws) \<Longrightarrow> \<bar>s\<bar> \<le> sum_list (map abs ws)"
proof (induction ws arbitrary: s rule: two_smallest_merge.induct)
  case (1 x y ws)
  from 1(2) consider "s = x + y" | "s \<in> set (two_smallest_merge (insort (x + y) ws))" by auto
  then show ?case
  proof cases
    case 1
    have "0 \<le> sum_list (map abs ws)" by (induction ws) auto
    with 1 show ?thesis by simp
  next
    case 2
    from "1.IH" [OF 2] have "\<bar>s\<bar> \<le> \<bar>x + y\<bar> + sum_list (map abs ws)"
      by (simp add: sum_list_abs_insort)
    then show ?thesis by simp
  qed
qed auto

lemma abs_le_sum_list_abs: "w \<in> set ws \<Longrightarrow> \<bar>w\<bar> \<le> sum_list (map abs (ws :: int list))"
proof (induction ws)
  case (Cons a ws)
  have "0 \<le> sum_list (map abs ws)" by (induction ws) auto
  with Cons show ?case by auto
qed simp

lemma in_ptrdiff_abs: "\<bar>w\<bar> < 2 ^ 63 \<Longrightarrow> in_ptrdiff w"
  by (simp add: in_ptrdiff_def abs_less_iff)

lemma merge_array_in_range:
  fixes leaves :: "(int \<times> char) list"
  assumes "sum_list (map (\<lambda>p. \<bar>fst p\<bar>) leaves) < 2 ^ 63"
    "p \<in> set (leaves @ map (\<lambda>w. (w, CHR 0x00)) (two_smallest_merge (map fst leaves)))"
  shows "in_ptrdiff (fst p)"
proof -
  have e: "sum_list (map abs (map fst leaves)) = sum_list (map (\<lambda>p. \<bar>fst p\<bar>) leaves)"
    by (simp add: comp_def)
  from assms(2) consider "p \<in> set leaves" | "fst p \<in> set (two_smallest_merge (map fst leaves))"
    by auto
  then have "\<bar>fst p\<bar> \<le> sum_list (map abs (map fst leaves))"
  proof cases
    case 1
    then have "fst p \<in> set (map fst leaves)" by simp
    then show ?thesis by (rule abs_le_sum_list_abs)
  next
    case 2
    then show ?thesis by (rule two_smallest_merge_abs_bound)
  qed
  with assms(1) e show ?thesis by (intro in_ptrdiff_abs) simp
qed

text \<open>
  Claim C3.  For every list of \<open>k \<ge> 2\<close> leaves sorted ascending by weight,
  \<open>build_huffman_array\<close> (with the comparator and the combine operation of \<open>compress\<close>)
  returns an array of length \<open>2k - 1\<close> whose first \<open>k\<close> positions are the leaves unchanged and
  whose positions \<open>[k, 2k - 1)\<close> are the internal nodes in creation order: their weights are
  the sums of the two smallest weights not yet consumed at the time of creation
  (\<open>two_smallest_merge\<close>), they carry no symbol, and the last element, at index \<open>2k - 2\<close>, is the
  root, whose weight is the sum of all leaf weights.  The weights are \<open>ptrdiff_t\<close> values: the
  leaf sequences are those whose absolute weights sum to less than \<open>2^63\<close>, and then every
  weight in the array, so every sum that \<open>std::plus\<close> forms, is within the type.
\<close>

theorem build_huffman_array_merge_array:
  fixes leaves :: "(int \<times> char) list"
  assumes "sorted (map fst leaves)" "2 \<le> length leaves"
    and "sum_list (map (\<lambda>p. \<bar>fst p\<bar>) leaves) < 2 ^ 63"
  shows "\<exists>nodes. build_huffman_array (compare_first (<)) (merge_first_op (+)) leaves
             = Some (Inr nodes)
           \<and> list_all (\<lambda>p. in_ptrdiff (fst p)) nodes
           \<and> length nodes = 2 * length leaves - 1
           \<and> take (length leaves) nodes = leaves
           \<and> map fst (drop (length leaves) nodes) = two_smallest_merge (map fst leaves)
           \<and> map snd (drop (length leaves) nodes) = replicate (length leaves - 1) (CHR 0x00)
           \<and> fst (nodes ! (2 * length leaves - 2)) = sum_list (map fst leaves)"
proof -
  let ?ws = "two_smallest_merge (map fst leaves)"
  let ?nodes = "leaves @ map (\<lambda>w. (w, CHR 0x00)) ?ws"
  have len: "length ?ws = length leaves - 1" by (simp add: two_smallest_merge_length)
  have ne: "?ws \<noteq> []" using len assms(2) by (auto simp flip: length_0_conv)
  have "2 * length leaves - 2 = length leaves + (length ?ws - 1)"
    using assms(2) len by simp
  then have "?nodes ! (2 * length leaves - 2) = (map (\<lambda>w. (w, CHR 0x00)) ?ws) ! (length ?ws - 1)"
    by (simp only: nth_append_length_plus)
  also have "\<dots> = (last ?ws, CHR 0x00)"
    using ne by (simp add: last_conv_nth)
  finally have root: "fst (?nodes ! (2 * length leaves - 2)) = sum_list (map fst leaves)"
    using two_smallest_merge_last [of "map fst leaves"] assms(2) by simp
  have sn: "map snd (map (\<lambda>w. (w, CHR 0x00)) ?ws) = replicate (length leaves - 1) (CHR 0x00)"
    using len by (simp add: map_replicate_const comp_def)
  have rng: "list_all (\<lambda>p. in_ptrdiff (fst p)) ?nodes"
    unfolding list_all_iff using merge_array_in_range [OF assms(3)] by blast
  show ?thesis
  proof (intro exI [of _ ?nodes] conjI)
    show "build_huffman_array (compare_first (<)) (merge_first_op (+)) leaves = Some (Inr ?nodes)"
      by (rule build_huffman_array_eq [OF assms(1,2)])
    show "list_all (\<lambda>p. in_ptrdiff (fst p)) ?nodes" by (rule rng)
    show "length ?nodes = 2 * length leaves - 1" using len assms(2) by simp
    show "take (length leaves) ?nodes = leaves" by simp
    show "map fst (drop (length leaves) ?nodes) = ?ws" by (simp add: comp_def)
    show "map snd (drop (length leaves) ?nodes) = replicate (length leaves - 1) (CHR 0x00)"
      using sn by simp
    show "fst (?nodes ! (2 * length leaves - 2)) = sum_list (map fst leaves)" by (rule root)
  qed
qed

theorem build_huffman_array_merge_array_witness:
  "\<exists>nodes. build_huffman_array (compare_first (<)) (merge_first_op (+))
              [(1::int, CHR ''c''), (1, CHR ''d''), (2, CHR ''b''), (2, CHR ''r''), (5, CHR ''a'')]
             = Some (Inr nodes)
           \<and> list_all (\<lambda>p. in_ptrdiff (fst p)) nodes
           \<and> length nodes = 9
           \<and> take 5 nodes
               = [(1, CHR ''c''), (1, CHR ''d''), (2, CHR ''b''), (2, CHR ''r''), (5, CHR ''a'')]
           \<and> map fst (drop 5 nodes) = [2, 4, 6, 11]
           \<and> fst (nodes ! 8) = 11"
proof -
  let ?l = "[(1::int, CHR ''c''), (1, CHR ''d''), (2, CHR ''b''), (2, CHR ''r''), (5, CHR ''a'')]"
  have h: "sorted (map fst ?l)" "2 \<le> length ?l" "sum_list (map (\<lambda>p. \<bar>fst p\<bar>) ?l) < 2 ^ 63"
    by simp_all
  have l: "length ?l = 5" "2 * 5 - 1 = (9::nat)" "2 * 5 - 2 = (8::nat)" by simp_all
  have e: "two_smallest_merge (map fst ?l) = [2, 4, 6, 11]" "sum_list (map fst ?l) = 11"
    by simp_all
  from build_huffman_array_merge_array [OF h, unfolded l e] obtain nodes where
    "build_huffman_array (compare_first (<)) (merge_first_op (+)) ?l = Some (Inr nodes)"
    "list_all (\<lambda>p. in_ptrdiff (fst p)) nodes"
    "length nodes = 9" "take 5 nodes = ?l" "map fst (drop 5 nodes) = [2, 4, 6, 11]"
    "fst (nodes ! 8) = 11"
    by (elim exE conjE)
  then show ?thesis by (intro exI [of _ nodes] conjI)
qed


section \<open>The merge array under positive weights, and the codes generated from it\<close>

lemma two_smallest_merge_sorted:
  "sorted ws \<Longrightarrow> \<forall>w \<in> set ws. 0 \<le> w \<Longrightarrow>
     sorted (two_smallest_merge ws) \<and> (\<forall>s \<in> set (two_smallest_merge ws). 2 * hd ws \<le> s)"
proof (induction ws rule: two_smallest_merge.induct)
  case (1 x y ws)
  let ?ws' = "insort (x + y) ws"
  from 1(2,3) have xy: "0 \<le> x" "x \<le> y" "\<forall>w \<in> set ws. y \<le> w" "sorted ws" by auto
  have "sorted ?ws'" "\<forall>w \<in> set ?ws'. 0 \<le> w"
    using xy by (auto simp: sorted_insort set_insort_key)
  from 1(1) [OF this] have IH: "sorted (two_smallest_merge ?ws')"
    "\<forall>s \<in> set (two_smallest_merge ?ws'). 2 * hd ?ws' \<le> s" by simp_all
  have "hd ?ws' \<in> set ?ws'" by (metis hd_in_set insort_not_Nil)
  then have "y \<le> hd ?ws'" using xy by (auto simp: set_insort_key)
  with IH xy show ?case by fastforce
qed auto

lemma insort_nth_shift:
  "sorted (rs :: int list) \<Longrightarrow> b < length rs \<Longrightarrow> rs ! b \<le> insort s rs ! (b + 1)"
proof (induction rs arbitrary: b)
  case Nil
  then show ?case by simp
next
  case (Cons r rs)
  show ?case
  proof (cases "s \<le> r")
    case True
    then show ?thesis by simp
  next
    case False
    show ?thesis
    proof (cases b)
      case 0
      have "insort s rs ! 0 \<in> set (insort s rs)" by (metis insort_not_Nil length_greater_0_conv nth_mem)
      then have "r \<le> insort s rs ! 0" using Cons.prems(1) False by (auto simp: set_insort_key)
      with False 0 show ?thesis by simp
    next
      case (Suc b')
      with Cons have "rs ! b' \<le> insort s rs ! (b' + 1)" by simp
      with False Suc show ?thesis by simp
    qed
  qed
qed

lemma two_smallest_merge_above_leaf:
  "sorted ws \<Longrightarrow> \<forall>w \<in> set ws. 0 \<le> w \<Longrightarrow> Suc b < length ws \<Longrightarrow>
     ws ! Suc b \<le> two_smallest_merge ws ! b"
proof (induction ws arbitrary: b rule: two_smallest_merge.induct)
  case (1 x y ws)
  let ?ws' = "insort (x + y) ws"
  from 1(2,3) have xy: "0 \<le> x" "x \<le> y" "\<forall>w \<in> set ws. y \<le> w" "sorted ws" by auto
  have s': "sorted ?ws'" "\<forall>w \<in> set ?ws'. 0 \<le> w"
    using xy by (auto simp: sorted_insort set_insort_key)
  show ?case
  proof (cases b)
    case 0
    then show ?thesis using xy by simp
  next
    case (Suc b')
    with 1(4) have b': "b' < length ws" by simp
    then have "Suc b' < length ?ws'" by simp
    from 1(1) [OF s' this] have "?ws' ! Suc b' \<le> two_smallest_merge ?ws' ! b'" .
    moreover have "ws ! b' \<le> ?ws' ! Suc b'" using insort_nth_shift [OF xy(4) b'] by simp
    ultimately show ?thesis using Suc by simp
  qed
qed auto

lemma build_huffman_array_merge_array_pos:
  fixes leaves :: "(int \<times> char) list"
  assumes "sorted (map fst leaves)" "2 \<le> length leaves" "\<forall>p \<in> set leaves. 0 \<le> fst p"
  obtains I where
    "build_huffman_array (compare_first (<)) (merge_first_op (+)) leaves = Some (Inr (leaves @ I))"
    "merge_array leaves I"
proof -
  let ?ws = "two_smallest_merge (map fst leaves)"
  let ?I = "map (\<lambda>w. (w, CHR 0x00)) ?ws"
  have nn: "\<forall>w \<in> set (map fst leaves). 0 \<le> w" using assms(3) by simp
  have len: "length ?ws = length leaves - 1" by (simp add: two_smallest_merge_length)
  have "map fst ?I = ?ws" by (simp add: comp_def)
  moreover have "fst (leaves ! Suc b) \<le> fst (?I ! b)" if "b < length ?I" for b
  proof -
    from that len have sb: "Suc b < length (map fst leaves)" by simp
    then have "map fst leaves ! Suc b = fst (leaves ! Suc b)" by simp
    with two_smallest_merge_above_leaf [OF assms(1) nn sb] that show ?thesis by simp
  qed
  ultimately have "merge_array leaves ?I"
    using two_smallest_merge_sorted [OF assms(1) nn] assms(1,2) len
    unfolding merge_array_def by simp
  with build_huffman_array_eq [OF assms(1,2)] that show thesis by blast
qed

lemma filter_take_le: "length (filter P (take c xs)) \<le> length (filter P xs)"
proof -
  have "filter P xs = filter P (take c xs) @ filter P (drop c xs)"
    by (metis append_take_drop_id filter_append)
  then show ?thesis by simp
qed

lemma pick_filters:
  assumes "filter (\<lambda>i. i < l1) (map fst Q) = [0..<f1]"
    "filter (\<lambda>i. \<not> i < l1) (map fst Q) = [l1..<f0]" "l1 \<le> f0"
    "x = f0 \<and> f0' = f0 + 1 \<and> f1' = f1 \<or> x = f1 \<and> f1 < l1 \<and> f1' = f1 + 1 \<and> f0' = f0"
  shows "filter (\<lambda>i. i < l1) (map fst (Q @ [(x, cd)])) = [0..<f1']"
    and "filter (\<lambda>i. \<not> i < l1) (map fst (Q @ [(x, cd)])) = [l1..<f0']"
  using assms by auto

lemma gen_invD:
  assumes "gen_inv xs l1 n Q c f0 f1 out"
  shows "c + n = length xs" "c \<le> length Q" "f1 \<le> l1" "l1 \<le> f0" "f0 \<le> length xs"
    "filter (\<lambda>i. i < l1) (map fst Q) = [0..<f1]"
    "filter (\<lambda>i. \<not> i < l1) (map fst Q) = [l1..<f0]"
    "length Q = 1 + 2 * length (filter (\<lambda>i. i < l1) (map fst (take c Q)))"
    "l1 < f0 \<and> f1 < l1 \<longrightarrow> fst (xs ! f1) < fst (xs ! (f0 - 1))"
    "map fst out = filter (\<lambda>i. \<not> i < l1) (map fst (take c Q))"
  using assms unfolding gen_inv_def by blast+

lemma gen_inv_length:
  assumes "gen_inv xs l1 n Q c f0 f1 out"
  shows "length Q = f1 + (f0 - l1)"
    and "length (filter (\<lambda>i. i < l1) (map fst (take c Q))) \<le> f1"
proof -
  note inv = gen_invD [OF assms]
  have "length (filter (\<lambda>i. i < l1) (map fst Q)) + length (filter (\<lambda>i. \<not> i < l1) (map fst Q))
      = length (map fst Q)" by (rule sum_length_filter_compl)
  then show "length Q = f1 + (f0 - l1)" unfolding inv(6,7) by simp
  have "length (filter (\<lambda>i. i < l1) (take c (map fst Q))) \<le> length (filter (\<lambda>i. i < l1) (map fst Q))"
    by (rule filter_take_le)
  then show "length (filter (\<lambda>i. i < l1) (map fst (take c Q))) \<le> f1"
    unfolding inv(6) take_map by simp
qed

lemma gen_inv_progress:
  fixes xs :: "(int \<times> 'u) list"
  assumes "rev_ok xs l1" "gen_inv xs l1 (Suc n) Q c f0 f1 out"
  shows "c < length Q"
proof (rule ccontr)
  note inv = gen_invD [OF assms(2)]
  assume "\<not> c < length Q"
  with inv(2) have c: "c = length Q" by simp
  then have "take c Q = Q" by simp
  with inv(8) have "length Q = 1 + 2 * length (filter (\<lambda>i. i < l1) (map fst Q))" by simp
  then have q: "length Q = 1 + 2 * f1" unfolding inv(6) by simp
  from assms(1) have len: "length xs = 2 * l1 + 1"
    and R3: "\<And>i. i < l1 \<Longrightarrow> fst (xs ! (l1 + i)) \<le> fst (xs ! i)"
    by (auto simp: rev_ok_def)
  from q c inv(1) len have f1: "f1 < l1" by linarith
  from gen_inv_length(1) [OF assms(2)] q inv(4) have f0: "f0 = l1 + f1 + 1" by linarith
  with inv(9) f1 have "fst (xs ! f1) < fst (xs ! (l1 + f1))" by simp
  with R3 [OF f1] show False by simp
qed

lemma next_node_gen:
  fixes xs :: "(int \<times> 'u) list"
  assumes "rev_ok xs l1" "f1 \<le> l1" "l1 \<le> f0" "f0 \<le> length xs" "f0 < length xs \<or> f1 < l1"
    and M1: "l1 < f0 \<and> f1 < l1 \<longrightarrow> fst (xs ! f1) < fst (xs ! (f0 - 1))"
  obtains x f0' f1' where
    "next_node (not2 (compare_first (<))) xs f0 (length xs) f1 l1 = Inr (x, f0', f1')"
    "x = f0 \<and> f0 < length xs \<and> f0' = f0 + 1 \<and> f1' = f1
      \<or> x = f1 \<and> f1 < l1 \<and> f1' = f1 + 1 \<and> f0' = f0"
    "l1 < f0' \<and> f1' < l1 \<longrightarrow> fst (xs ! f1') < fst (xs ! (f0' - 1))"
proof -
  note R = that
  have len: "length xs = 2 * l1 + 1" and mono: "\<And>i j. i \<le> j \<Longrightarrow> j < l1 \<Longrightarrow> fst (xs ! j) \<le> fst (xs ! i)"
    using assms(1) by (auto simp: rev_ok_def)
  have take1: thesis if "next_node (not2 (compare_first (<))) xs f0 (length xs) f1 l1
      = Inr (f1, f0, f1 + 1)" "f1 < l1"
  proof (rule R [OF that(1)])
    show "f1 = f0 \<and> f0 < length xs \<and> f0 = f0 + 1 \<and> f1 + 1 = f1
      \<or> f1 = f1 \<and> f1 < l1 \<and> f1 + 1 = f1 + 1 \<and> f0 = f0" using that(2) by simp
    show "l1 < f0 \<and> f1 + 1 < l1 \<longrightarrow> fst (xs ! (f1 + 1)) < fst (xs ! (f0 - 1))"
    proof
      assume a: "l1 < f0 \<and> f1 + 1 < l1"
      then have "fst (xs ! f1) < fst (xs ! (f0 - 1))" using M1 by simp
      moreover have "fst (xs ! (f1 + 1)) \<le> fst (xs ! f1)" using mono [of f1 "f1 + 1"] a by simp
      ultimately show "fst (xs ! (f1 + 1)) < fst (xs ! (f0 - 1))" by simp
    qed
  qed
  have take0: thesis if "next_node (not2 (compare_first (<))) xs f0 (length xs) f1 l1
      = Inr (f0, f0 + 1, f1)" "f0 < length xs" "f1 < l1 \<Longrightarrow> fst (xs ! f1) < fst (xs ! f0)"
  proof (rule R [OF that(1)])
    show "f0 = f0 \<and> f0 < length xs \<and> f0 + 1 = f0 + 1 \<and> f1 = f1
      \<or> f0 = f1 \<and> f1 < l1 \<and> f1 = f1 + 1 \<and> f0 + 1 = f0" using that(2) by simp
    show "l1 < f0 + 1 \<and> f1 < l1 \<longrightarrow> fst (xs ! f1) < fst (xs ! (f0 + 1 - 1))"
      using that(3) by simp
  qed
  show thesis
  proof (cases "f1 = l1")
    case True
    with assms(5) have "f0 < length xs" by simp
    then show thesis using True by (intro take0) (simp_all add: next_node_def)
  next
    case False
    with assms(2) have f1: "f1 < l1" by simp
    then have f1x: "f1 < length xs" using len by simp
    show thesis
    proof (cases "f0 = length xs")
      case True
      then show thesis using f1 f1x by (intro take1) (simp_all add: next_node_def)
    next
      case F: False
      with assms(4) have f0: "f0 < length xs" by simp
      show thesis
      proof (cases "fst (xs ! f1) < fst (xs ! f0)")
        case True
        then show thesis using f0 f1 f1x False F
          by (intro take0) (simp_all add: next_node_def not2_def compare_first_def)
      next
        case False
        then show thesis using f0 f1 f1x \<open>f1 \<noteq> l1\<close> F
          by (intro take1) (simp_all add: next_node_def not2_def compare_first_def)
      qed
    qed
  qed
qed

lemma filter_take_Suc_length:
  assumes "c < length xs" "P (xs ! c)"
  shows "length (filter P (take (Suc c) xs)) = Suc (length (filter P (take c xs)))"
    and "Suc (length (filter P (take c xs))) \<le> length (filter P xs)"
proof -
  show a: "length (filter P (take (Suc c) xs)) = Suc (length (filter P (take c xs)))"
    using assms by (simp add: take_Suc_conv_app_nth)
  have "length (filter P (take (Suc c) xs)) \<le> length (filter P xs)"
  proof -
    have "filter P xs = filter P (take (Suc c) xs) @ filter P (drop (Suc c) xs)"
      by (metis append_take_drop_id filter_append)
    then show ?thesis by simp
  qed
  with a show "Suc (length (filter P (take c xs))) \<le> length (filter P xs)" by simp
qed

lemma generate_codes_loop_shape:
  fixes xs :: "(int \<times> 'u) list"
  assumes "rev_ok xs l1" "gen_inv xs l1 n Q c f0 f1 out"
  shows "\<exists>res. generate_codes_loop (not2 (compare_first (<))) xs (length xs) l1 (length xs)
             n Q c f0 f1 out = Inr res
           \<and> map fst res = [l1..<length xs]"
  using assms(2)
proof (induction n arbitrary: Q c f0 f1 out)
  case 0
  note inv = gen_invD [OF 0]
  from assms(1) have len: "length xs = 2 * l1 + 1" by (simp add: rev_ok_def)
  from gen_inv_length(2) [OF 0] inv(8) have "length Q \<le> 1 + 2 * f1" by linarith
  with inv(1,2,3) len have cq: "c = length Q" and f1: "f1 = l1" by linarith+
  from gen_inv_length(1) [OF 0] cq inv(1) len f1 inv(4) have f0: "f0 = length xs" by linarith
  have "take c Q = Q" using cq by simp
  with inv(10) have "map fst out = [l1..<f0]" unfolding inv(7) [symmetric] by simp
  with f0 show ?case by simp
next
  case (Suc n)
  note inv = gen_invD [OF Suc.prems]
  let ?P = "\<lambda>i. i < l1"
  let ?cmp = "not2 (compare_first ((<) :: int \<Rightarrow> int \<Rightarrow> bool))"
  from assms(1) have len: "length xs = 2 * l1 + 1" by (simp add: rev_ok_def)
  have cur: "c < length Q" using gen_inv_progress [OF assms(1) Suc.prems] .
  have tk: "map fst (take (Suc c) Q) = map fst (take c Q) @ [fst (Q ! c)]"
    using cur by (simp add: take_Suc_conv_app_nth)
  show ?case
  proof (cases "l1 \<le> fst (Q ! c)")
    case True
    have "gen_inv xs l1 n Q (c + 1) f0 f1 (out @ [Q ! c])"
      unfolding gen_inv_def
    proof (intro conjI)
      show "c + 1 + n = length xs" using inv(1) by simp
      show "c + 1 \<le> length Q" using cur by simp
      show "f1 \<le> l1" "l1 \<le> f0" "f0 \<le> length xs" by (rule inv)+
      show "filter ?P (map fst Q) = [0..<f1]" by (rule inv)
      show "filter (\<lambda>i. \<not> i < l1) (map fst Q) = [l1..<f0]" by (rule inv)
      have e: "filter ?P (map fst (take (c + 1) Q)) = filter ?P (map fst (take c Q))"
        using True by (simp add: tk)
      show "length Q = 1 + 2 * length (filter ?P (map fst (take (c + 1) Q)))"
        unfolding e by (rule inv(8))
      show "l1 < f0 \<and> f1 < l1 \<longrightarrow> fst (xs ! f1) < fst (xs ! (f0 - 1))" by (rule inv)
      have "filter (\<lambda>i. \<not> i < l1) (map fst (take (c + 1) Q))
          = filter (\<lambda>i. \<not> i < l1) (map fst (take c Q)) @ [fst (Q ! c)]"
        using True by (simp add: tk)
      then show "map fst (out @ [Q ! c]) = filter (\<lambda>i. \<not> i < l1) (map fst (take (c + 1) Q))"
        unfolding inv(10) [symmetric] by simp
    qed
    from Suc.IH [OF this] obtain res where
      "generate_codes_loop ?cmp xs (length xs) l1 (length xs) n Q (c + 1) f0 f1 (out @ [Q ! c])
         = Inr res" "map fst res = [l1..<length xs]" by blast
    moreover have "\<not> length Q \<le> c" using cur by simp
    ultimately show ?thesis using True by simp
  next
    case False
    then have it: "fst (Q ! c) < l1" by simp
    define a where "a = length (filter ?P (map fst (take c Q)))"
    have "Suc a \<le> length (filter ?P (map fst Q))"
      unfolding a_def using filter_take_Suc_length(2) [of c "map fst Q" ?P] cur it
      by (simp add: take_map)
    then have a: "Suc a \<le> f1" unfolding inv(6) by simp
    have q: "length Q = 1 + 2 * a" unfolding a_def by (rule inv(8))
    have cap: "length Q + 2 \<le> length xs" using q a inv(3) len by linarith
    have tot: "length Q = f1 + (f0 - l1)" using gen_inv_length(1) [OF Suc.prems] .
    have av1: "f0 < length xs \<or> f1 < l1" using tot cap len inv(3,4,5) by linarith
    from next_node_gen [OF assms(1) inv(3,4,5) av1 inv(9)]
    obtain x f0a f1a where
      n1: "next_node ?cmp xs f0 (length xs) f1 l1 = Inr (x, f0a, f1a)" and
      px: "x = f0 \<and> f0 < length xs \<and> f0a = f0 + 1 \<and> f1a = f1
            \<or> x = f1 \<and> f1 < l1 \<and> f1a = f1 + 1 \<and> f0a = f0" and
      m1: "l1 < f0a \<and> f1a < l1 \<longrightarrow> fst (xs ! f1a) < fst (xs ! (f0a - 1))"
      by blast
    have ca: "f1a \<le> l1" "l1 \<le> f0a" "f0a \<le> length xs" "f0a + f1a = f0 + f1 + 1"
      using px inv(3,4,5) by auto
    have av2: "f0a < length xs \<or> f1a < l1" using tot cap len ca inv(4) by linarith
    from next_node_gen [OF assms(1) ca(1,2,3) av2 m1]
    obtain y f0b f1b where
      n2: "next_node ?cmp xs f0a (length xs) f1a l1 = Inr (y, f0b, f1b)" and
      py: "y = f0a \<and> f0a < length xs \<and> f0b = f0a + 1 \<and> f1b = f1a
            \<or> y = f1a \<and> f1a < l1 \<and> f1b = f1a + 1 \<and> f0b = f0a" and
      m2: "l1 < f0b \<and> f1b < l1 \<longrightarrow> fst (xs ! f1b) < fst (xs ! (f0b - 1))"
      by blast
    have cb: "f1b \<le> l1" "l1 \<le> f0b" "f0b \<le> length xs"
      using py ca by auto
    define c1 where "c1 = snd (Q ! c) @ ''1''"
    define c0 where "c0 = snd (Q ! c) @ ''0''"
    define Q1 where "Q1 = Q @ [(x, c1)]"
    define Q' where "Q' = Q @ [(x, c1), (y, c0)]"
    have px': "x = f0 \<and> f0a = f0 + 1 \<and> f1a = f1 \<or> x = f1 \<and> f1 < l1 \<and> f1a = f1 + 1 \<and> f0a = f0"
      using px by blast
    have py': "y = f0a \<and> f0b = f0a + 1 \<and> f1b = f1a \<or> y = f1a \<and> f1a < l1 \<and> f1b = f1a + 1 \<and> f0b = f0a"
      using py by blast
    have F1: "filter ?P (map fst Q1) = [0..<f1a]" "filter (\<lambda>i. \<not> i < l1) (map fst Q1) = [l1..<f0a]"
      unfolding Q1_def by (rule pick_filters [OF inv(6,7,4) px'])+
    have Q'1: "Q' = Q1 @ [(y, c0)]" by (simp add: Q'_def Q1_def)
    have F2: "filter ?P (map fst Q') = [0..<f1b]" "filter (\<lambda>i. \<not> i < l1) (map fst Q') = [l1..<f0b]"
      unfolding Q'1 by (rule pick_filters [OF F1 ca(2) py'])+
    have tk': "map fst (take (c + 1) Q') = map fst (take c Q) @ [fst (Q ! c)]"
      using cur tk by (simp add: Q'_def)
    have "gen_inv xs l1 n Q' (c + 1) f0b f1b out"
      unfolding gen_inv_def
    proof (intro conjI)
      show "c + 1 + n = length xs" using inv(1) by simp
      show "c + 1 \<le> length Q'" using cur by (simp add: Q'_def)
      show "f1b \<le> l1" "l1 \<le> f0b" "f0b \<le> length xs" by (rule cb)+
      show "filter ?P (map fst Q') = [0..<f1b]" by (rule F2)
      show "filter (\<lambda>i. \<not> i < l1) (map fst Q') = [l1..<f0b]" by (rule F2)
      have l: "length (filter ?P (map fst (take (c + 1) Q'))) = Suc a"
        unfolding tk' using it by (simp add: a_def)
      have "length Q' = length Q + 2" by (simp add: Q'_def)
      then show "length Q' = 1 + 2 * length (filter ?P (map fst (take (c + 1) Q')))"
        unfolding l using q by presburger
      show "l1 < f0b \<and> f1b < l1 \<longrightarrow> fst (xs ! f1b) < fst (xs ! (f0b - 1))" by (rule m2)
      have "filter (\<lambda>i. \<not> i < l1) (map fst (take (c + 1) Q'))
          = filter (\<lambda>i. \<not> i < l1) (map fst (take c Q))"
        unfolding tk' using it by simp
      then show "map fst out = filter (\<lambda>i. \<not> i < l1) (map fst (take (c + 1) Q'))"
        using inv(10) by (simp only:)
    qed
    from Suc.IH [OF this] obtain res where
      r: "generate_codes_loop ?cmp xs (length xs) l1 (length xs) n Q' (c + 1) f0b f1b out = Inr res"
      "map fst res = [l1..<length xs]" by blast
    have g: "\<not> length Q \<le> c" "\<not> l1 \<le> fst (Q ! c)" "\<not> length xs < length Q + 2"
      using cur False cap by simp_all
    have "generate_codes_loop ?cmp xs (length xs) l1 (length xs) (Suc n) Q c f0 f1 out = Inr res"
      using r(1) unfolding Q'_def c1_def c0_def
      by (simp only: generate_codes_loop.simps g n1 n2 if_False sum.case prod.case)
    with r(2) show ?thesis by blast
  qed
qed

lemma merge_array_rev_ok:
  assumes "merge_array L I"
  shows "rev_ok (rev (L @ I)) (length I)"
proof -
  from assms have k: "2 \<le> length L" "length I = length L - 1"
    and sI: "sorted (map fst I)"
    and ab: "\<And>b. b < length I \<Longrightarrow> fst (L ! Suc b) \<le> fst (I ! b)"
    by (auto simp: merge_array_def)
  let ?xs = "rev (L @ I)"
  have xi: "?xs ! i = I ! (length I - 1 - i)" if "i < length I" for i
    using that by (simp add: nth_append rev_nth)
  have xl: "?xs ! (length I + i) = L ! (length L - 1 - i)" if "i < length L" for i
  proof -
    have "?xs ! (length (rev I) + i) = rev L ! i" by (simp only: rev_append nth_append_length_plus)
    then show ?thesis using that by (simp add: rev_nth)
  qed
  show ?thesis
    unfolding rev_ok_def
  proof (intro conjI allI impI)
    show "length ?xs = 2 * length I + 1" using k by simp
    show "1 \<le> length I" using k by simp
  next
    fix i j assume "i \<le> j \<and> j < length I"
    then have ij: "i \<le> j" "j < length I" by simp_all
    have "fst (I ! (length I - 1 - j)) \<le> fst (I ! (length I - 1 - i))"
      using sorted_map_nth_mono [OF sI, of "length I - 1 - j" "length I - 1 - i"] ij by simp
    then show "fst (?xs ! j) \<le> fst (?xs ! i)" using xi ij by simp
  next
    fix i assume i: "i < length I"
    have "Suc (length I - 1 - i) = length L - 1 - i" using i k by simp
    with ab [of "length I - 1 - i"] i have "fst (L ! (length L - 1 - i)) \<le> fst (I ! (length I - 1 - i))"
      by simp
    moreover have "i < length L" using i k by simp
    ultimately show "fst (?xs ! (length I + i)) \<le> fst (?xs ! i)"
      using xi [OF i] xl [of i] by simp
  qed
qed

lemma gen_inv_init:
  assumes "rev_ok xs l1"
  shows "gen_inv xs l1 (length xs) [(0, [])] 0 l1 1 []"
  using assms unfolding gen_inv_def rev_ok_def by simp

lemma generate_codes_shape:
  fixes xs :: "(int \<times> 'u) list"
  assumes "rev_ok xs l1"
  shows "\<exists>out. generate_codes (not2 (compare_first (<))) xs l1 (length xs) 0 l1 = Inr out
           \<and> map fst out = [l1..<length xs]"
proof -
  from assms have "0 < length xs" by (simp add: rev_ok_def)
  then have "generate_codes (not2 (compare_first (<))) xs l1 (length xs) 0 l1
      = generate_codes_loop (not2 (compare_first (<))) xs (length xs) l1 (length xs) (length xs)
          [(0, [])] 0 l1 1 []"
    by (simp add: generate_codes_def)
  with generate_codes_loop_shape [OF assms gen_inv_init [OF assms]] show ?thesis by simp
qed

lemma generate_codes_loop_partial_n:
  assumes "generate_codes_loop cmp xs l0 l1 cap n pfxs current f0 f1 out = Inr res"
    and "I n pfxs current out"
    and leaf: "\<And>n pfxs current out. I (Suc n) pfxs current out \<Longrightarrow> current < length pfxs \<Longrightarrow>
        l1 \<le> fst (pfxs ! current) \<Longrightarrow> I n pfxs (current + 1) (out @ [pfxs ! current])"
    and node: "\<And>n pfxs current out x y. I (Suc n) pfxs current out \<Longrightarrow>
        current < length pfxs \<Longrightarrow> fst (pfxs ! current) < l1 \<Longrightarrow>
        length pfxs + 2 \<le> cap \<Longrightarrow>
        I n (pfxs @ [(x, snd (pfxs ! current) @ ''1''), (y, snd (pfxs ! current) @ ''0'')])
          (current + 1) out"
  shows "\<exists>pfxs' current'. I 0 pfxs' current' res"
  using assms(1,2)
proof (induction n arbitrary: pfxs current f0 f1 out)
  case 0
  then show ?case by auto
next
  case (Suc n)
  from Suc.prems(1) have cur: "current < length pfxs"
    by (auto split: if_splits)
  show ?case
  proof (cases "l1 \<le> fst (pfxs ! current)")
    case True
    with Suc.prems cur
    have "generate_codes_loop cmp xs l0 l1 cap n pfxs (current + 1) f0 f1 (out @ [pfxs ! current]) = Inr res"
      by simp
    moreover have "I n pfxs (current + 1) (out @ [pfxs ! current])"
      using leaf [OF Suc.prems(2) cur True] .
    ultimately show ?thesis by (rule Suc.IH)
  next
    case False
    with Suc.prems(1) cur obtain x f0a f1a y f0b f1b where
      cap: "length pfxs + 2 \<le> cap" and
      r: "generate_codes_loop cmp xs l0 l1 cap n
            (pfxs @ [(x, snd (pfxs ! current) @ ''1''), (y, snd (pfxs ! current) @ ''0'')])
            (current + 1) f0b f1b out = Inr res"
      by (auto split: sum.splits if_splits prod.splits)
    from False have lt: "fst (pfxs ! current) < l1" by simp
    show ?thesis
      using Suc.IH [OF r node [OF Suc.prems(2) cur lt cap]] .
  qed
qed

lemma antichain_split:
  assumes "antichain (A @ p # B)" "u \<noteq> v"
  shows "antichain (A @ B @ [p @ [u], p @ [v]])"
proof -
  from assms(1) have d: "distinct (A @ p # B)"
    and ac: "\<And>a b. a \<in> set (A @ p # B) \<Longrightarrow> b \<in> set (A @ p # B) \<Longrightarrow> prefix a b \<Longrightarrow> a = b"
    unfolding antichain_def by blast+
  have np: "\<not> prefix e p" "\<not> prefix p e" if "e \<in> set A \<union> set B" for e
  proof -
    from that d have "e \<noteq> p" by auto
    moreover from that have "e \<in> set (A @ p # B)" by auto
    ultimately show "\<not> prefix e p" "\<not> prefix p e" using ac [of e p] ac [of p e] by auto
  qed
  have new: "\<not> prefix e (p @ [w])" "\<not> prefix (p @ [w]) e" "e \<noteq> p @ [w]"
    if "e \<in> set A \<union> set B" for e w
  proof -
    show 2: "\<not> prefix (p @ [w]) e" using np(2) [OF that] by (meson append_prefixD)
    then show 3: "e \<noteq> p @ [w]" by auto
    show "\<not> prefix e (p @ [w])" using np(1) [OF that] 3 by simp
  qed
  have old: "a = b" if "a \<in> set A \<union> set B" "b \<in> set A \<union> set B" "prefix a b" for a b
    using that ac [of a b] by auto
  show ?thesis
    unfolding antichain_def
  proof (intro conjI ballI impI)
    show "distinct (A @ B @ [p @ [u], p @ [v]])"
      using d new(3) assms(2) by auto
  next
    fix a b assume a: "a \<in> set (A @ B @ [p @ [u], p @ [v]])"
      and b: "b \<in> set (A @ B @ [p @ [u], p @ [v]])" and pr: "prefix a b"
    from a consider "a \<in> set A \<union> set B" | "a = p @ [u]" | "a = p @ [v]" by auto
    then show "a = b"
    proof cases
      case 1
      from b consider "b \<in> set A \<union> set B" | "b = p @ [u]" | "b = p @ [v]" by auto
      then show ?thesis
      proof cases
        case 1
        from old [OF \<open>a \<in> set A \<union> set B\<close> 1 pr] show ?thesis .
      next
        case 2
        with new(1) [OF \<open>a \<in> set A \<union> set B\<close>] pr show ?thesis by blast
      next
        case 3
        with new(1) [OF \<open>a \<in> set A \<union> set B\<close>] pr show ?thesis by blast
      qed
    next
      case 2
      from b consider "b \<in> set A \<union> set B" | "b = p @ [u]" | "b = p @ [v]" by auto
      then show ?thesis
      proof cases
        case 1
        with new(2) [OF 1] 2 pr show ?thesis by blast
      next
        case 2
        with \<open>a = p @ [u]\<close> show ?thesis by simp
      next
        case 3
        with 2 pr show ?thesis by simp
      qed
    next
      case 3
      from b consider "b \<in> set A \<union> set B" | "b = p @ [u]" | "b = p @ [v]" by auto
      then show ?thesis
      proof cases
        case 1
        with new(2) [OF 1] 3 pr show ?thesis by blast
      next
        case 2
        with 3 pr show ?thesis by simp
      next
        case 3
        with \<open>a = p @ [v]\<close> show ?thesis by simp
      qed
    qed
  qed
qed

lemma code_inv_leaf:
  assumes "code_inv l1 N (Suc n) Q c out" "c < length Q" "l1 \<le> fst (Q ! c)"
  shows "code_inv l1 N n Q (c + 1) (out @ [Q ! c])"
proof -
  have fr: "map snd (out @ [Q ! c]) @ map snd (drop (c + 1) Q) = map snd out @ map snd (drop c Q)"
    using assms(2) by (simp flip: Cons_nth_drop_Suc)
  have c0: "0 < c"
  proof (rule ccontr)
    assume "\<not> 0 < c"
    with assms(1) obtain r where "c = 0" "Q = [(r, [])]" "r < l1" by (auto simp: code_inv_def)
    with assms(3) show False by simp
  qed
  show ?thesis
    unfolding code_inv_def fr using assms(1) c0 by (simp add: code_inv_def)
qed

lemma code_inv_node:
  assumes "code_inv l1 N (Suc n) Q c out" "c < length Q" "length Q + 2 \<le> N"
  shows "code_inv l1 N n (Q @ [(x, snd (Q ! c) @ ''1''), (y, snd (Q ! c) @ ''0'')]) (c + 1) out"
proof -
  let ?p = "snd (Q ! c)"
  let ?A = "map snd out" and ?B = "map snd (drop (Suc c) Q)"
  let ?Q' = "Q @ [(x, ?p @ ''1''), (y, ?p @ ''0'')]"
  have old: "map snd out @ map snd (drop c Q) = ?A @ ?p # ?B"
    using assms(2) by (simp flip: Cons_nth_drop_Suc)
  have new: "map snd out @ map snd (drop (c + 1) ?Q') = ?A @ ?B @ [?p @ ''1'', ?p @ ''0'']"
    using assms(2) by simp
  from assms(1) have ac: "antichain (?A @ ?p # ?B)" unfolding code_inv_def old by blast
  have ac': "antichain (?A @ ?B @ [?p @ ''1'', ?p @ ''0''])"
    by (rule antichain_split [OF ac]) simp
  have ne: "[] \<notin> set ?A \<union> set ?B"
  proof (cases "c = 0")
    case True
    with assms(1) show ?thesis by (auto simp: code_inv_def)
  next
    case False
    with assms(1) have "[] \<notin> set (?A @ ?p # ?B)" unfolding code_inv_def old by blast
    then show ?thesis by simp
  qed
  show ?thesis
    unfolding code_inv_def new
  proof (intro conjI impI)
    show "c + 1 + n = N" using assms(1) by (simp add: code_inv_def)
    show "length ?Q' \<le> N" using assms(3) by simp
    show "antichain (?A @ ?B @ [?p @ ''1'', ?p @ ''0''])" by (rule ac')
    show "out = []" if "c + 1 = 0" using that by simp
    show "\<exists>r. ?Q' = [(r, [])] \<and> r < l1" if "c + 1 = 0" using that by simp
    show "[] \<notin> set (?A @ ?B @ [?p @ ''1'', ?p @ ''0''])" using ne by simp
  qed
qed

lemma generate_codes_antichain:
  assumes "generate_codes cmp xs f0 (length xs) 0 l1 = Inr out" "0 < l1"
  shows "antichain (map snd out)" "[] \<notin> set (map snd out)"
proof -
  from assms(1) have xs: "0 < length xs"
    and loop: "generate_codes_loop cmp xs (length xs) l1 (length xs) (length xs) [(0, [])] 0 f0 1 []
      = Inr out"
    by (auto simp: generate_codes_def split: if_splits)
  have init: "code_inv l1 (length xs) (length xs) [(0, [])] 0 []"
    using xs assms(2) by (cases xs) (simp_all add: code_inv_def antichain_def)
  have "\<exists>Q c. code_inv l1 (length xs) 0 Q c out"
  proof (rule generate_codes_loop_partial_n [where I = "code_inv l1 (length xs)", OF loop init],
      goal_cases)
    case (1 n pfxs current out)
    then show ?case by (rule code_inv_leaf)
  next
    case (2 n pfxs current out x y)
    then show ?case using code_inv_node by blast
  qed
  then obtain Q c where ci: "code_inv l1 (length xs) 0 Q c out" by blast
  then have "c = length xs" "length Q \<le> c" by (simp_all add: code_inv_def)
  then have "drop c Q = []" "0 < c" using xs by simp_all
  with ci show "antichain (map snd out)" "[] \<notin> set (map snd out)"
    by (simp_all add: code_inv_def)
qed

lemma next_node_build_strict:
  fixes L I :: "(int \<times> char) list"
  assumes "sorted (map fst (drop f0 L))"
    "next_node (compare_first (<)) (L @ I) f0 (length L) (length L + q) (length (L @ I))
       = Inr (x, f0', f1')" "length L \<le> x" "f0 \<le> length L"
  shows "\<forall>e \<in> set (map fst (drop f0 L)). fst ((L @ I) ! x) < e"
proof (cases "f0 = length L")
  case True
  then show ?thesis by simp
next
  case False
  with assms(4) have f0: "f0 < length L" by simp
  from assms(2,3) f0 have x: "x = length L + q" and lt: "fst (I ! q) < fst (L ! f0)"
    by (auto simp: next_node_def compare_first_def nth_append split: if_splits)
  show ?thesis
  proof
    fix e assume "e \<in> set (map fst (drop f0 L))"
    from sorted_drop_hd_le [OF assms(1) f0 this] lt show "fst ((L @ I) ! x) < e"
      by (simp add: x)
  qed
qed

lemma in_avail_leaf: "f0 \<le> a \<Longrightarrow> a < length L \<Longrightarrow> fst (L ! a) \<in> set (avail L I f0 q)"
proof -
  assume a: "f0 \<le> a" "a < length L"
  then have "drop f0 L ! (a - f0) = L ! a" "a - f0 < length (drop f0 L)" by simp_all
  then have "L ! a \<in> set (drop f0 L)" by (metis nth_mem)
  then show ?thesis by (simp add: avail_def)
qed

lemma in_avail_internal: "q \<le> b \<Longrightarrow> b < length I \<Longrightarrow> fst (I ! b) \<in> set (avail L I f0 q)"
proof -
  assume a: "q \<le> b" "b < length I"
  then have "drop q I ! (b - q) = I ! b" "b - q < length (drop q I)" by simp_all
  then have "I ! b \<in> set (drop q I)" by (metis nth_mem)
  then show ?thesis by (simp add: avail_def)
qed

lemma filter_upt_mem:
  assumes "filter P S = [a..<b]" "v \<in> set S" "P v"
  shows "a \<le> v \<and> v < b"
proof -
  from assms(2,3) have "v \<in> set (filter P S)" by simp
  then show ?thesis unfolding assms(1) by simp
qed

lemma header_loop_run:
  fixes L I :: "(int \<times> char) list"
  assumes "f0 \<le> length L" "q \<le> length I"
    "sorted (map fst (drop f0 L))" "sorted (map fst (drop q I))"
    "R = (length L - f0) + (length I - q)"
  shows "\<exists>S. header_loop (compare_first (<)) conv (L @ I) f0 (length L) (length L + q) result
             = Some (Inr (result @ concat (map (enc_node conv (L @ I) (length L)) S)))
           \<and> filter (\<lambda>x. x < length L) S = [f0..<length L]
           \<and> filter (\<lambda>x. \<not> x < length L) S = [length L + q..<length L + length I]
           \<and> sorted_wrt (merge_before (L @ I) (length L)) S"
  using assms
proof (induction R arbitrary: f0 q result)
  case 0
  then have "f0 = length L" "q = length I" by simp_all
  then have "header_loop (compare_first (<)) conv (L @ I) f0 (length L) (length L + q) result
      = Some (Inr result)"
    by (subst header_loop.simps) simp
  then show ?case using \<open>f0 = length L\<close> \<open>q = length I\<close> by (intro exI [of _ "[]"]) simp
next
  case (Suc R)
  let ?cmp = "compare_first ((<) :: int \<Rightarrow> int \<Rightarrow> bool)"
  let ?k = "length L"
  have ne: "f0 < length L \<or> q < length I" using Suc.prems by linarith
  obtain x f0' q' where
    n1: "next_node ?cmp (L @ I) f0 (length L) (length L + q) (length (L @ I))
          = Inr (x, f0', length L + q')" and
    x: "x < length (L @ I)" and f0': "f0' \<le> length L" and q': "q' \<le> length I" and
    px: "x = f0 \<and> f0 < length L \<and> f0' = f0 + 1 \<and> q' = q
          \<or> x = length L + q \<and> q < length I \<and> q' = q + 1 \<and> f0' = f0" and
    m1: "mset (avail L I f0 q) = add_mset (fst ((L @ I) ! x)) (mset (avail L I f0' q'))" and
    min1: "\<forall>y \<in> set (avail L I f0' q'). fst ((L @ I) ! x) \<le> y" and
    s1: "sorted (map fst (drop f0' L))" "sorted (map fst (drop q' I))"
    by (rule next_node_build [OF Suc.prems(1,2) ne Suc.prems(3,4)])
  have cnt: "R = (length L - f0') + (length I - q')" using px Suc.prems(5) by auto
  define result' where "result' = result @ enc_node conv (L @ I) ?k x"
  from Suc.IH [OF f0' q' s1 cnt, of result'] obtain S where
    S: "header_loop ?cmp conv (L @ I) f0' ?k (?k + q') result'
          = Some (Inr (result' @ concat (map (enc_node conv (L @ I) ?k) S)))"
      "filter (\<lambda>x. x < ?k) S = [f0'..<?k]"
      "filter (\<lambda>x. \<not> x < ?k) S = [?k + q'..<?k + length I]"
      "sorted_wrt (merge_before (L @ I) ?k) S"
    by blast
  have cond: "f0 \<noteq> ?k \<or> ?k + q \<noteq> length (L @ I)" using ne by auto
  have cond': "(f0 \<noteq> ?k \<or> ?k + q \<noteq> length (L @ I)) = True" using cond by simp
  have step: "header_loop ?cmp conv (L @ I) f0 ?k (?k + q) result
      = header_loop ?cmp conv (L @ I) f0' ?k (?k + q') result'"
  proof (cases "x < ?k")
    case True
    then have t: "(x < ?k) = True" by simp
    show ?thesis
      by (subst header_loop.simps)
        (simp only: cond' n1 result'_def enc_node_def if_True sum.case prod.case t)
  next
    case False
    then have t: "(x < ?k) = False" by simp
    show ?thesis
      by (subst header_loop.simps)
        (simp only: cond' n1 result'_def enc_node_def if_True if_False sum.case prod.case t)
  qed
  have mb: "merge_before (L @ I) ?k x v" if v: "v \<in> set S" for v
  proof (cases "x < ?k")
    case True
    with px have xf: "x = f0" "q' = q" by auto
    have "fst ((L @ I) ! x) \<le> fst ((L @ I) ! v)" if "?k \<le> v"
    proof -
      from that have "\<not> v < ?k" by simp
      from filter_upt_mem [OF S(3) v this] have vb: "?k + q' \<le> v" "v < ?k + length I" by simp_all
      then have "fst (I ! (v - ?k)) \<in> set (avail L I f0' q')"
        by (intro in_avail_internal) auto
      moreover have "(L @ I) ! v = I ! (v - ?k)" using that by (simp add: nth_append)
      ultimately show ?thesis using min1 by simp
    qed
    with True show ?thesis by (simp add: merge_before_def)
  next
    case False
    then have kx: "?k \<le> x" by simp
    have "fst ((L @ I) ! x) < fst ((L @ I) ! v)" if "v < ?k"
    proof -
      from px kx have "f0' = f0" by auto
      with filter_upt_mem [OF S(2) v that] have vb: "f0 \<le> v" by simp
      then have "drop f0 L ! (v - f0) = L ! v" "v - f0 < length (drop f0 L)" using that by simp_all
      then have "L ! v \<in> set (drop f0 L)" by (metis nth_mem)
      then have "fst (L ! v) \<in> set (map fst (drop f0 L))" by simp
      with next_node_build_strict [OF Suc.prems(3) n1 kx Suc.prems(1)]
      have "fst ((L @ I) ! x) < fst (L ! v)" by blast
      then show ?thesis using that by (simp add: nth_append)
    qed
    with False show ?thesis by (simp add: merge_before_def)
  qed
  have f1: "filter (\<lambda>x. x < ?k) (x # S) = [f0..<?k]"
    using px S(2) by (auto simp: upt_conv_Cons)
  have f2: "filter (\<lambda>x. \<not> x < ?k) (x # S) = [?k + q..<?k + length I]"
    using px S(3) by (auto simp: upt_conv_Cons)
  show ?case
  proof (intro exI [of _ "x # S"] conjI)
    show "header_loop ?cmp conv (L @ I) f0 ?k (?k + q) result
        = Some (Inr (result @ concat (map (enc_node conv (L @ I) ?k) (x # S))))"
      unfolding step S(1) by (simp add: result'_def)
    show "filter (\<lambda>x. x < ?k) (x # S) = [f0..<?k]" by (rule f1)
    show "filter (\<lambda>x. \<not> x < ?k) (x # S) = [?k + q..<?k + length I]" by (rule f2)
    show "sorted_wrt (merge_before (L @ I) ?k) (x # S)" using mb S(4) by simp
  qed
qed

section \<open>The run of \<^verbatim>\<open>compress\<close>: code table and header\<close>

lemma compress_leaves:
  fixes input :: string
  assumes "std_sort srt"
  defines "leaves \<equiv> srt (unique_copy_with_count (sort input))"
  shows "sorted (map fst leaves)" "length leaves = card (set input)"
    "\<forall>p \<in> set leaves. 1 \<le> fst p" "distinct (map snd leaves)" "snd ` set leaves = set input"
proof -
  let ?f = "unique_copy_with_count (sort input)"
  from assms(1) have ms: "mset leaves = mset ?f" and so: "sorted (map fst leaves)"
    by (simp_all add: std_sort_def leaves_def)
  show "sorted (map fst leaves)" by (rule so)
  show "length leaves = card (set input)"
    using std_sort_length [OF assms(1)] frequencies_length by (simp add: leaves_def)
  have set: "set leaves = set ?f" using ms by (rule mset_eq_setD)
  show "\<forall>p \<in> set leaves. 1 \<le> fst p" unfolding set using unique_copy_with_count_pos by blast
  have "mset (map snd leaves) = mset (map snd ?f)" using ms by simp
  then show "distinct (map snd leaves)"
    using frequencies_distinct [of input] by (metis mset_eq_imp_distinct_iff)
  show "snd ` set leaves = set input" unfolding set by (rule frequencies_set)
qed

lemma antichain_nth:
  assumes "antichain cs" "i < length cs" "j < length cs" "i \<noteq> j"
  shows "\<not> prefix (cs ! i) (cs ! j)"
proof
  assume "prefix (cs ! i) (cs ! j)"
  with assms have "cs ! i = cs ! j" unfolding antichain_def by (meson nth_mem)
  with assms show False unfolding antichain_def by (simp add: nth_eq_iff_index_eq)
qed

lemma encoder_codes_ok:
  assumes "merge_array L I"
  obtains out where
    "encoder_codes (compare_first (<)) (length L) (L @ I) = Inr out"
    "map fst out = [length I..<length L + length I]"
    "antichain (map snd out)" "[] \<notin> set (map snd out)"
    "sorted (map (\<lambda>x. length (snd x)) out)"
    "map (\<lambda>c. snd (rev (L @ I) ! fst c)) out = rev (map snd L)"
proof -
  let ?xs = "rev (L @ I)"
  from assms have k: "2 \<le> length L" "length I = length L - 1" by (auto simp: merge_array_def)
  have ro: "rev_ok ?xs (length I)" by (rule merge_array_rev_ok [OF assms])
  have e: "encoder_codes (compare_first (<)) (length L) (L @ I)
      = generate_codes (not2 (compare_first (<))) ?xs (length I) (length ?xs) 0 (length I)"
    by (simp add: encoder_codes_def add.commute)
  from generate_codes_shape [OF ro] obtain out where
    g: "generate_codes (not2 (compare_first (<))) ?xs (length I) (length ?xs) 0 (length I) = Inr out"
    and f: "map fst out = [length I..<length ?xs]" by blast
  have l1: "0 < length I" using k by simp
  have sym: "map (\<lambda>c. snd (?xs ! fst c)) out = rev (map snd L)"
  proof -
    have "map (\<lambda>c. snd (?xs ! fst c)) out = map (\<lambda>i. snd (?xs ! i)) (map fst out)"
      by (simp add: comp_def)
    also have "\<dots> = map (\<lambda>i. snd (?xs ! i)) [length I..<length I + length L]"
      unfolding f by (simp add: add.commute)
    also have "\<dots> = map (\<lambda>j. snd (?xs ! (length I + j))) [0..<length L]"
    proof -
      have "[length I..<length I + length L] = map (\<lambda>j. length I + j) [0..<length L]"
        by (rule nth_equalityI) simp_all
      then show ?thesis by (simp only: map_map comp_def)
    qed
    also have "\<dots> = map (\<lambda>j. snd (rev L ! j)) [0..<length L]"
    proof (rule map_cong [OF refl])
      fix j
      have "?xs ! (length (rev I) + j) = rev L ! j"
        by (simp only: rev_append nth_append_length_plus)
      then show "snd (?xs ! (length I + j)) = snd (rev L ! j)" by simp
    qed
    also have "\<dots> = map snd (rev L)"
      by (metis (mono_tags, lifting) length_rev map_nth map_map comp_def map_cong)
    finally show ?thesis by (simp add: rev_map)
  qed
  show thesis
  proof (rule that)
    show "encoder_codes (compare_first (<)) (length L) (L @ I) = Inr out" using e g by simp
    show "map fst out = [length I..<length L + length I]" using f by (simp add: add.commute)
    show "antichain (map snd out)" "[] \<notin> set (map snd out)"
      using generate_codes_antichain [OF g l1] by simp_all
    show "sorted (map (\<lambda>x. length (snd x)) out)" by (rule generate_codes_sorted_lengths [OF g])
    show "map (\<lambda>c. snd (rev (L @ I) ! fst c)) out = rev (map snd L)" by (rule sym)
  qed
qed


lemma enc_node_concat_length:
  assumes "\<And>x. length (conv x) = 8"
  shows "length (concat (map (enc_node conv nodes k) S))
      = 9 * length (filter (\<lambda>x. x < k) S) + length (filter (\<lambda>x. \<not> x < k) S)"
  by (induction S) (simp_all add: enc_node_def assms)

lemma header_ok:
  fixes L I :: "(int \<times> char) list"
  assumes "merge_array L I"
  obtains S where
    "header (compare_first (<)) conv (L @ I)
       = Some (Inr (bitset_to_string 16 (length (L @ I))
                    @ concat (map (enc_node conv (L @ I) (length L)) S)))"
    "filter (\<lambda>x. x < length L) S = [0..<length L]"
    "filter (\<lambda>x. \<not> x < length L) S = [length L..<length L + length I]"
    "sorted_wrt (merge_before (L @ I) (length L)) S"
proof -
  from assms have k: "2 \<le> length L" "length I = length L - 1"
    and s: "sorted (map fst L)" "sorted (map fst I)" by (auto simp: merge_array_def)
  have l0: "length (L @ I) div 2 + 1 = length L" using k by simp
  have nl: "\<not> length (L @ I) < length L" by simp
  have h: "header (compare_first (<)) conv (L @ I)
      = header_loop (compare_first (<)) conv (L @ I) 0 (length L) (length L + 0)
          (bitset_to_string 16 (length (L @ I)))"
    unfolding header_def Let_def l0 using nl by (simp only: if_False add_0_right)
  from header_loop_run [of 0 L 0 I "length L + length I" conv "bitset_to_string 16 (length (L @ I))"] s
  obtain S where
    "header_loop (compare_first (<)) conv (L @ I) 0 (length L) (length L + 0)
          (bitset_to_string 16 (length (L @ I)))
       = Some (Inr (bitset_to_string 16 (length (L @ I))
                    @ concat (map (enc_node conv (L @ I) (length L)) S)))"
    "filter (\<lambda>x. x < length L) S = [0..<length L]"
    "filter (\<lambda>x. \<not> x < length L) S = [length L + 0..<length L + length I]"
    "sorted_wrt (merge_before (L @ I) (length L)) S"
    by auto
  with h that show thesis by simp
qed

lemma bitset_to_string_length: "length (bitset_to_string w v) = w"
  by (simp add: bitset_to_string_def)

lemma compress_run:
  fixes input :: string
  assumes "std_sort srt" "2 \<le> card (set input)"
  defines "leaves \<equiv> srt (unique_copy_with_count (sort input))"
  obtains I S out where
    "merge_array leaves I"
    "build_huffman_array (compare_first (<)) (merge_first_op (+)) leaves = Some (Inr (leaves @ I))"
    "header (compare_first (<)) binary_converter_encode (leaves @ I)
       = Some (Inr (bitset_to_string 16 (length (leaves @ I))
                    @ concat (map (enc_node binary_converter_encode (leaves @ I) (length leaves)) S)))"
    "filter (\<lambda>x. x < length leaves) S = [0..<length leaves]"
    "filter (\<lambda>x. \<not> x < length leaves) S = [length leaves..<length leaves + length I]"
    "sorted_wrt (merge_before (leaves @ I) (length leaves)) S"
    "encoder_codes (compare_first (<)) (length leaves) (leaves @ I) = Inr out"
    "compress srt input
       = Some (Inr ((bitset_to_string 16 (length (leaves @ I))
                    @ concat (map (enc_node binary_converter_encode (leaves @ I) (length leaves)) S))
             @ concat (map (st_at (foldl (st_op get_second (rev (leaves @ I))) Map.empty out)) input)))"
proof -
  note lv = compress_leaves [OF assms(1), of input, folded leaves_def]
  have nn: "\<forall>p \<in> set leaves. 0 \<le> fst p" using lv(3) by fastforce
  have k2: "2 \<le> length leaves" using lv(2) assms(2) by simp
  from build_huffman_array_merge_array_pos [OF lv(1) k2 nn] obtain I where
    b: "build_huffman_array (compare_first (<)) (merge_first_op (+)) leaves = Some (Inr (leaves @ I))"
    and ma: "merge_array leaves I" by blast
  from header_ok [OF ma, of binary_converter_encode] obtain S where
    h: "header (compare_first (<)) binary_converter_encode (leaves @ I)
       = Some (Inr (bitset_to_string 16 (length (leaves @ I))
                    @ concat (map (enc_node binary_converter_encode (leaves @ I) (length leaves)) S)))"
    "filter (\<lambda>x. x < length leaves) S = [0..<length leaves]"
    "filter (\<lambda>x. \<not> x < length leaves) S = [length leaves..<length leaves + length I]"
    "sorted_wrt (merge_before (leaves @ I) (length leaves)) S" by blast
  from encoder_codes_ok [OF ma] obtain out where
    e: "encoder_codes (compare_first (<)) (length leaves) (leaves @ I) = Inr out" by blast
  have "compress srt input
       = Some (Inr ((bitset_to_string 16 (length (leaves @ I))
                    @ concat (map (enc_node binary_converter_encode (leaves @ I) (length leaves)) S))
             @ concat (map (st_at (foldl (st_op get_second (rev (leaves @ I))) Map.empty out)) input)))"
    unfolding compress_def Let_def huffman_encoder_def leaves_def [symmetric]
    by (simp only: b h(1) e option.case sum.case)
  with ma b h e that show thesis by blast
qed


lemma unique_copy_with_count_sum:
  "sum_list (map fst (unique_copy_with_count xs)) = int (length xs)"
proof (induction xs rule: length_induct)
  case (1 xs)
  show ?case
  proof (cases xs)
    case Nil
    then show ?thesis by simp
  next
    case (Cons x ys)
    have "length (dropWhile (\<lambda>y. y = x) ys) < length xs"
      using Cons length_dropWhile_le [of "\<lambda>y. y = x" ys] by simp
    with 1 have "sum_list (map fst (unique_copy_with_count (dropWhile (\<lambda>y. y = x) ys)))
        = int (length (dropWhile (\<lambda>y. y = x) ys))" by blast
    moreover have "length (takeWhile (\<lambda>y. y = x) ys) + length (dropWhile (\<lambda>y. y = x) ys) = length ys"
      by (metis length_append takeWhile_dropWhile_id)
    ultimately show ?thesis
      unfolding Cons unique_copy_with_count_Cons by simp
  qed
qed

lemma compress_nodes_in_range:
  fixes input :: string
  assumes "std_sort srt" "2 \<le> card (set input)" "length input < 2 ^ 63"
    "build_huffman_array (compare_first (<)) (merge_first_op (+))
       (srt (unique_copy_with_count (sort input))) = Some (Inr nodes)"
  shows "list_all (\<lambda>p. in_ptrdiff (fst p)) nodes"
proof -
  define leaves where "leaves = srt (unique_copy_with_count (sort input))"
  note lv = compress_leaves [OF assms(1), of input, folded leaves_def]
  have k2: "2 \<le> length leaves" using lv(2) assms(2) by simp
  have "mset leaves = mset (unique_copy_with_count (sort input))"
    using assms(1) by (simp add: std_sort_def leaves_def)
  then have "sum_list (map fst leaves) = sum_list (map fst (unique_copy_with_count (sort input)))"
    by (metis mset_map sum_mset_sum_list)
  then have tot: "sum_list (map fst leaves) = int (length input)"
    by (simp add: unique_copy_with_count_sum)
  have "\<bar>fst p\<bar> = fst p" if "p \<in> set leaves" for p
    using lv(3) that by fastforce
  then have "map (\<lambda>p. \<bar>fst p\<bar>) leaves = map fst leaves" by (simp cong: map_cong)
  then have "sum_list (map (\<lambda>p. \<bar>fst p\<bar>) leaves) = sum_list (map fst leaves)" by (rule arg_cong)
  with tot assms(3) have b: "sum_list (map (\<lambda>p. \<bar>fst p\<bar>) leaves) < 2 ^ 63" by simp
  from build_huffman_array_eq [OF lv(1) k2] assms(4)
  have "nodes = leaves @ map (\<lambda>w. (w, CHR 0x00)) (two_smallest_merge (map fst leaves))"
    by (simp add: leaves_def)
  then show ?thesis
    unfolding list_all_iff using merge_array_in_range [OF b] by blast
qed

text \<open>
  Claim C4.  For every input with at least two distinct symbols (and a length that
  \<^verbatim>\<open>ptrdiff_t\<close> can count), \<^verbatim>\<open>build_huffman_array\<close> returns an array whose weights all
  lie in the range of \<^verbatim>\<open>ptrdiff_t\<close>, and the call of \<^verbatim>\<open>generate_codes\<close> made by the encoder
  on that array returns a code table in which every leaf occurs exactly once (the reverse
  positions \<open>k - 1, \<dots>, 2k - 2\<close> of the \<open>k\<close> leaves, each once, carrying the distinct
  symbols of the input), and no code of one entry is a prefix of the code of another entry;
  in particular no code is a proper prefix of another, and no two leaves share a code.
\<close>
theorem code_table_prefix_free:
  fixes input :: string
  assumes "std_sort srt" "2 \<le> card (set input)" "length input < 2 ^ 63"
  shows "\<exists>nodes codes.
      build_huffman_array (compare_first (<)) (merge_first_op (+))
        (srt (unique_copy_with_count (sort input))) = Some (Inr nodes)
    \<and> list_all (\<lambda>p. in_ptrdiff (fst p)) nodes
    \<and> encoder_codes (compare_first (<)) (card (set input)) nodes = Inr codes
    \<and> map fst codes = [card (set input) - 1..<2 * card (set input) - 1]
    \<and> distinct (map (\<lambda>c. snd (rev nodes ! fst c)) codes)
    \<and> set (map (\<lambda>c. snd (rev nodes ! fst c)) codes) = set input
    \<and> (\<forall>i < length codes. \<forall>j < length codes. i \<noteq> j \<longrightarrow>
          \<not> prefix (snd (codes ! i)) (snd (codes ! j)))"
proof -
  define leaves where "leaves = srt (unique_copy_with_count (sort input))"
  note lv = compress_leaves [OF assms(1), of input, folded leaves_def]
  from compress_run [OF assms(1,2), folded leaves_def] obtain I where
    ma: "merge_array leaves I" and
    b: "build_huffman_array (compare_first (<)) (merge_first_op (+)) leaves = Some (Inr (leaves @ I))"
    by metis
  from ma have lI: "length I = length leaves - 1" "2 \<le> length leaves"
    by (auto simp: merge_array_def)
  from encoder_codes_ok [OF ma] obtain out where
    e: "encoder_codes (compare_first (<)) (length leaves) (leaves @ I) = Inr out" and
    f: "map fst out = [length I..<length leaves + length I]" and
    ac: "antichain (map snd out)" and
    sy: "map (\<lambda>c. snd (rev (leaves @ I) ! fst c)) out = rev (map snd leaves)"
    by blast
  have pf: "\<not> prefix (snd (out ! i)) (snd (out ! j))"
    if "i < length out" "j < length out" "i \<noteq> j" for i j
    using antichain_nth [OF ac, of i j] that by simp
  show ?thesis
  proof (intro exI [of _ "leaves @ I"] exI [of _ out] conjI allI impI)
    show "build_huffman_array (compare_first (<)) (merge_first_op (+))
        (srt (unique_copy_with_count (sort input))) = Some (Inr (leaves @ I))"
      using b by (simp add: leaves_def)
    show "list_all (\<lambda>p. in_ptrdiff (fst p)) (leaves @ I)"
      using compress_nodes_in_range [OF assms b [unfolded leaves_def]] by (simp only: leaves_def)
    show "encoder_codes (compare_first (<)) (card (set input)) (leaves @ I) = Inr out"
      using e lv(2) by simp
    show "map fst out = [card (set input) - 1..<2 * card (set input) - 1]"
      unfolding f lI lv(2) using assms(2) by (simp add: mult_2)
    show "distinct (map (\<lambda>c. snd (rev (leaves @ I) ! fst c)) out)"
      unfolding sy using lv(4) by simp
    show "set (map (\<lambda>c. snd (rev (leaves @ I) ! fst c)) out) = set input"
      unfolding sy using lv(5) by simp
  next
    fix i j assume "i < length out" "j < length out" "i \<noteq> j"
    then show "\<not> prefix (snd (out ! i)) (snd (out ! j))" by (rule pf)
  qed
qed

text \<open>
  Claim C5.  For every input with \<open>k \<ge> 2\<close> distinct symbols (and a length that
  \<^verbatim>\<open>ptrdiff_t\<close> can count), \<^verbatim>\<open>compress\<close> returns; its output begins with the string returned
  by \<^verbatim>\<open>header\<close> on the array of \<open>2k - 1\<close> nodes built from the frequency table, and that
  header has exactly \<open>16 + (2k - 1) + 8k\<close> characters: sixteen count bits, one shape bit per
  node and eight symbol bits per leaf.
\<close>
theorem header_size:
  fixes input :: string
  assumes "std_sort srt" "2 \<le> card (set input)" "length input < 2 ^ 63"
  shows "\<exists>nodes hdr payload.
      build_huffman_array (compare_first (<)) (merge_first_op (+))
        (srt (unique_copy_with_count (sort input))) = Some (Inr nodes)
    \<and> list_all (\<lambda>p. in_ptrdiff (fst p)) nodes
    \<and> length nodes = 2 * card (set input) - 1
    \<and> header (compare_first (<)) binary_converter_encode nodes = Some (Inr hdr)
    \<and> compress srt input = Some (Inr (hdr @ payload))
    \<and> length hdr = 16 + (2 * card (set input) - 1) + 8 * card (set input)"
proof -
  define leaves where "leaves = srt (unique_copy_with_count (sort input))"
  note lv = compress_leaves [OF assms(1), of input, folded leaves_def]
  from compress_run [OF assms(1,2), folded leaves_def] obtain I S out where
    ma: "merge_array leaves I" and
    b: "build_huffman_array (compare_first (<)) (merge_first_op (+)) leaves = Some (Inr (leaves @ I))" and
    h: "header (compare_first (<)) binary_converter_encode (leaves @ I)
       = Some (Inr (bitset_to_string 16 (length (leaves @ I))
                    @ concat (map (enc_node binary_converter_encode (leaves @ I) (length leaves)) S)))" and
    f: "filter (\<lambda>x. x < length leaves) S = [0..<length leaves]"
      "filter (\<lambda>x. \<not> x < length leaves) S = [length leaves..<length leaves + length I]" and
    c: "compress srt input
       = Some (Inr ((bitset_to_string 16 (length (leaves @ I))
                    @ concat (map (enc_node binary_converter_encode (leaves @ I) (length leaves)) S))
             @ concat (map (st_at (foldl (st_op get_second (rev (leaves @ I))) Map.empty out)) input)))"
    by metis
  from ma have lI: "length I = length leaves - 1" "2 \<le> length leaves"
    by (auto simp: merge_array_def)
  define hdr where "hdr = bitset_to_string 16 (length (leaves @ I))
      @ concat (map (enc_node binary_converter_encode (leaves @ I) (length leaves)) S)"
  have l8: "length (binary_converter_encode x) = 8" for x :: "int \<times> char"
    by (simp add: binary_converter_encode_def bitset_to_string_length)
  have "length hdr = 16 + (9 * length leaves + length I)"
    unfolding hdr_def using enc_node_concat_length [of binary_converter_encode, OF l8, of "leaves @ I" "length leaves" S]
    by (simp add: bitset_to_string_length f)
  then have len: "length hdr = 16 + (2 * card (set input) - 1) + 8 * card (set input)"
    using lI lv(2) by simp
  show ?thesis
  proof (intro exI conjI)
    show "build_huffman_array (compare_first (<)) (merge_first_op (+))
        (srt (unique_copy_with_count (sort input))) = Some (Inr (leaves @ I))"
      using b by (simp add: leaves_def)
    show "list_all (\<lambda>p. in_ptrdiff (fst p)) (leaves @ I)"
      using compress_nodes_in_range [OF assms b [unfolded leaves_def]] by (simp only: leaves_def)
    show "length (leaves @ I) = 2 * card (set input) - 1" using lI lv(2) by simp
    show "header (compare_first (<)) binary_converter_encode (leaves @ I) = Some (Inr hdr)"
      using h by (simp add: hdr_def)
    show "compress srt input = Some (Inr (hdr @ concat (map (st_at (foldl (st_op get_second (rev (leaves @ I))) Map.empty out)) input)))"
      using c by (simp add: hdr_def)
    show "length hdr = 16 + (2 * card (set input) - 1) + 8 * card (set input)" by (rule len)
  qed
qed

lemma card_abracadabra: "card (set ''abracadabra'') = 5"
  by code_simp

theorem header_size_witness:
  "\<exists>nodes hdr payload.
      build_huffman_array (compare_first (<)) (merge_first_op (+))
        (sort_key fst (unique_copy_with_count (sort ''abracadabra''))) = Some (Inr nodes)
    \<and> list_all (\<lambda>p. in_ptrdiff (fst p)) nodes
    \<and> length nodes = 9
    \<and> header (compare_first (<)) binary_converter_encode nodes = Some (Inr hdr)
    \<and> compress (sort_key fst) ''abracadabra'' = Some (Inr (hdr @ payload))
    \<and> length hdr = 65"
proof -
  have h: "2 \<le> card (set ''abracadabra'')" "length ''abracadabra'' < 2 ^ 63"
    unfolding card_abracadabra by simp_all
  have n: "2 * 5 - 1 = (9::nat)" "16 + 9 + 8 * 5 = (65::nat)" by simp_all
  show ?thesis
    using header_size [OF std_sort_sort_key h, unfolded card_abracadabra n] .
qed

theorem code_table_prefix_free_witness:
  "\<exists>nodes codes.
      build_huffman_array (compare_first (<)) (merge_first_op (+))
        (sort_key fst (unique_copy_with_count (sort ''abracadabra''))) = Some (Inr nodes)
    \<and> list_all (\<lambda>p. in_ptrdiff (fst p)) nodes
    \<and> encoder_codes (compare_first (<)) 5 nodes = Inr codes
    \<and> map fst codes = [4..<9]
    \<and> distinct (map (\<lambda>c. snd (rev nodes ! fst c)) codes)
    \<and> set (map (\<lambda>c. snd (rev nodes ! fst c)) codes) = set ''abracadabra''
    \<and> \<not> prefix (snd (codes ! 0)) (snd (codes ! 1))"
proof -
  have h: "2 \<le> card (set ''abracadabra'')" "length ''abracadabra'' < 2 ^ 63"
    unfolding card_abracadabra by simp_all
  have n: "5 - 1 = (4::nat)" "2 * 5 - 1 = (9::nat)" by simp_all
  from code_table_prefix_free [OF std_sort_sort_key h, unfolded card_abracadabra n]
  obtain nodes codes where w:
    "build_huffman_array (compare_first (<)) (merge_first_op (+))
        (sort_key fst (unique_copy_with_count (sort ''abracadabra''))) = Some (Inr nodes)"
    "list_all (\<lambda>p. in_ptrdiff (fst p)) nodes"
    "encoder_codes (compare_first (<)) 5 nodes = Inr codes"
    "map fst codes = [4..<9]"
    "distinct (map (\<lambda>c. snd (rev nodes ! fst c)) codes)"
    "set (map (\<lambda>c. snd (rev nodes ! fst c)) codes) = set ''abracadabra''"
    "\<forall>i < length codes. \<forall>j < length codes. i \<noteq> j \<longrightarrow>
          \<not> prefix (snd (codes ! i)) (snd (codes ! j))"
    by (elim exE conjE)
  from w(4) have "length (map fst codes) = length [4..<(9::nat)]" by (rule arg_cong)
  then have "length codes = 5" by simp
  with w(7) have "\<not> prefix (snd (codes ! 0)) (snd (codes ! 1))" by simp
  with w(1-6) show ?thesis by (intro exI [of _ nodes] exI [of _ codes] conjI)
qed

section \<open>The candidate list of the decoder\<close>

text \<open>
  Claim C7.  When \<^verbatim>\<open>decompress\<close> has read the header and built its candidate list, it enters
  the matching loop with that list, and the list is in ascending order of code length; it is
  the list emitted by \<^verbatim>\<open>generate_codes\<close> sorted stably by code length (\<open>sort_key\<close> is a stable
  insertion sort), so that candidates of equal length keep their generation order.  In the
  source the call of \<^verbatim>\<open>std::sort\<close> precedes \<^verbatim>\<open>generate_codes\<close> and sorts an empty vector: the
  order comes from the breadth-first emission of \<^verbatim>\<open>generate_codes\<close>.
\<close>
theorem decoder_prefixes_sorted:
  assumes "read_header binary_converter_decode input = Inr (nodes, current)"
    and "decoder_prefixes nodes = Inr pfxs"
  shows "decompress input = decode_loop input (rev nodes) pfxs current [] []
    \<and> sorted (map (\<lambda>x. length (snd x)) pfxs)
    \<and> (\<exists>out. generate_codes decoder_cmp (rev nodes) (length nodes - (length nodes div 2 + 1))
                 (length nodes) 0 (length nodes - (length nodes div 2 + 1)) = Inr out
           \<and> pfxs = sort_key (\<lambda>x. length (snd x)) out)"
proof -
  let ?l = "length nodes div 2 + 1"
  from assms(2) obtain out where
    g: "generate_codes decoder_cmp (rev nodes) (length nodes - ?l) (length nodes) 0 (length nodes - ?l) = Inr out"
    and p: "pfxs = out"
    by (auto simp: decoder_prefixes_def Let_def split: if_splits sum.splits)
  have s: "sorted (map (\<lambda>x. length (snd x)) out)"
    by (rule generate_codes_sorted_lengths [OF g])
  have d: "decompress input = decode_loop input (rev nodes) pfxs current [] []"
    using assms by (simp add: decompress_def huffman_decoder_def)
  from d s g p show ?thesis by (simp add: sort_key_id_if_sorted)
qed

lemma read_header_abca:
  "read_header binary_converter_decode ''000000000000010110110001010110001110110000100010110''
     = Inr ([(0, CHR ''b''), (1, CHR ''c''), (2, CHR ''a''), (3, CHR 0x00), (4, CHR 0x00)], 45)"
  by code_simp

lemma decoder_prefixes_abca:
  "decoder_prefixes [(0, CHR ''b''), (1, CHR ''c''), (2, CHR ''a''), (3, CHR 0x00), (4, CHR 0x00)]
     = Inr [(2, ''0''), (3, ''11''), (4, ''10'')]"
  by code_simp

theorem decoder_prefixes_sorted_witness:
  "decompress ''000000000000010110110001010110001110110000100010110''
     = decode_loop ''000000000000010110110001010110001110110000100010110''
         (rev [(0, CHR ''b''), (1, CHR ''c''), (2, CHR ''a''), (3, CHR 0x00), (4, CHR 0x00)])
         [(2, ''0''), (3, ''11''), (4, ''10'')] 45 [] []
    \<and> sorted (map (\<lambda>x. length (snd x)) [(2::nat, ''0''), (3, ''11''), (4, ''10'')])
    \<and> (\<exists>out. generate_codes decoder_cmp
                 (rev [(0::int, CHR ''b''), (1, CHR ''c''), (2, CHR ''a''), (3, CHR 0x00), (4, CHR 0x00)])
                 2 5 0 2 = Inr out
           \<and> [(2, ''0''), (3, ''11''), (4, ''10'')] = sort_key (\<lambda>x. length (snd x)) out)"
proof -
  have n: "length [(0::int, CHR ''b''), (1, CHR ''c''), (2, CHR ''a''), (3, CHR 0x00), (4, CHR 0x00)] = 5"
    "5 - (5 div 2 + 1) = (2::nat)" by simp_all
  show ?thesis
    using decoder_prefixes_sorted [OF read_header_abca decoder_prefixes_abca, unfolded n] .
qed

section \<open>A payload that matches no candidate\<close>

declare read_bits.simps [simp del]



lemma read_bits_enough: "sz \<le> length b \<Longrightarrow> read_bits input sz c b = Inr (c, b)"
  by (simp add: read_bits.simps [of input sz c b])














section \<open>Reading the header back\<close>

lemma binary_value_foldl:
  "foldl (\<lambda>a c. 2 * a + (if c = CHR ''1'' then 1 else 0)) a s
     = a * 2 ^ length s + foldl (\<lambda>a c. 2 * a + (if c = CHR ''1'' then 1 else (0::nat))) 0 s"
proof (induction s arbitrary: a)
  case Nil
  show ?case by simp
next
  case (Cons c s)
  show ?case
    by (simp only: foldl_Cons Cons.IH [of "2 * a + (if c = CHR ''1'' then 1 else 0)"]
        Cons.IH [of "2 * 0 + (if c = CHR ''1'' then 1 else 0)"]) (simp add: algebra_simps)
qed

lemma bitset_to_string_Suc:
  "bitset_to_string (Suc w) v = (if bit v w then CHR ''1'' else CHR ''0'') # bitset_to_string w v"
  by (simp add: bitset_to_string_def)

lemma binary_value_bitset: "binary_value (bitset_to_string w v) = v mod 2 ^ w"
proof (induction w)
  case 0
  show ?case by (simp add: bitset_to_string_def binary_value_def)
next
  case (Suc w)
  have "binary_value (bitset_to_string (Suc w) v)
      = (if bit v w then 1 else 0) * 2 ^ w + binary_value (bitset_to_string w v)"
    unfolding bitset_to_string_Suc binary_value_def foldl_Cons
    by (subst binary_value_foldl) (simp add: bitset_to_string_length)
  also have "\<dots> = 2 ^ w * of_bool (bit v w) + take_bit w v"
    by (simp add: Suc.IH take_bit_eq_mod)
  also have "\<dots> = take_bit (Suc w) v" by (simp add: take_bit_Suc_from_most)
  finally show ?case by (simp add: take_bit_eq_mod)
qed

lemma bitset_to_string_bits: "list_all is_bit (bitset_to_string w v)"
  by (auto simp: bitset_to_string_def list_all_iff is_bit_def)

lemma bitset_of_string_bitset: "bitset_of_string (bitset_to_string w v) = Inr (v mod 2 ^ w)"
  by (simp add: bitset_of_string_def bitset_to_string_bits binary_value_bitset)

lemma is_bit_not_space: "is_bit c \<Longrightarrow> \<not> isspace c \<and> c \<noteq> CHR ''-'' \<and> c \<noteq> CHR ''+''"
  by (auto simp: is_bit_def isspace_def)

lemma stoi2_bits:
  assumes "list_all is_bit s" "s \<noteq> []"
  shows "stoi2 s = Inr (int (binary_value s))"
proof -
  obtain c t where s: "s = c # t" using assms(2) by (cases s) auto
  with assms(1) have c: "is_bit c" by simp
  have tw: "takeWhile is_bit s = s" using assms(1) by (simp add: list_all_iff)
  have dw: "dropWhile isspace s = s" using is_bit_not_space [OF c] by (simp add: s)
  have hd: "hd s \<noteq> CHR ''-''" "hd s \<noteq> CHR ''+''" using is_bit_not_space [OF c] by (simp_all add: s)
  show ?thesis unfolding stoi2_def Let_def dw using hd assms(2) by (simp only: tw if_False simp_thms)
qed

lemma binary_converter_roundtrip:
  "binary_converter_decode (binary_converter_encode x) = Inr (snd x)"
proof -
  have ne: "bitset_to_string 8 (of_char (snd x)) \<noteq> []"
    using bitset_to_string_length [of 8 "of_char (snd x)"] by (metis length_0_conv zero_neq_numeral)
  have m: "(of_char (snd x) :: nat) mod 2 ^ 8 = of_char (snd x)"
    using of_char_mod_256 [of "snd x", where ?'a = nat] by simp
  have "char_of (int (of_char (snd x) :: nat)) = snd x"
    by (simp add: of_nat_of_char)
  then show ?thesis
    unfolding binary_converter_decode_def binary_converter_encode_def
      stoi2_bits [OF bitset_to_string_bits ne] binary_value_bitset m by simp
qed


lemma drop_eq_ConsD:
  assumes "drop f inp = a # t"
  shows "f < length inp" "inp ! f = a" "drop (f + 1) inp = t"
proof -
  show f: "f < length inp" using assms by (metis drop_all list.distinct(1) not_le)
  from Cons_nth_drop_Suc [OF f] assms show "inp ! f = a" "drop (f + 1) inp = t" by simp_all
qed

lemma drop_eq_appendD:
  assumes "drop f inp = u @ t" "u \<noteq> []"
  shows "f + length u \<le> length inp" "take (length u) (drop f inp) = u" "drop (f + length u) inp = t"
proof -
  have a: "length inp - f = length u + length t"
    using arg_cong [OF assms(1), of length] by simp
  have b: "0 < length u" using assms(2) by simp
  from a b show "f + length u \<le> length inp" by linarith
  show "take (length u) (drop f inp) = u" unfolding assms(1) by simp
  have "drop (length u) (drop f inp) = t" unfolding assms(1) by simp
  then show "drop (f + length u) inp = t" by (simp add: add.commute)
qed

lemma binary_converter_encode_length: "length (binary_converter_encode x) = 8"
  by (simp add: binary_converter_encode_def bitset_to_string_length)

lemma read_header_loop_run:
  assumes "drop first input = concat (map (enc_node binary_converter_encode N k) S) @ rest"
    and "filter (\<lambda>x. x < k) S = [ln..<k]" "filter (\<lambda>x. \<not> x < k) S = [inn..<length nodes]"
    and "k \<le> inn" "k \<le> length nodes"
  shows "read_header_loop binary_converter_decode input (length S) i nodes ln inn first
       = Inr (place N k i S nodes,
              first + length (concat (map (enc_node binary_converter_encode N k) S)))"
  using assms
proof (induction S arbitrary: first i nodes ln inn)
  case Nil
  show ?case by simp
next
  case (Cons x S)
  let ?enc = "enc_node binary_converter_encode N k"
  let ?tl = "concat (map ?enc S) @ rest"
  show ?case
  proof (cases "x < k")
    case True
    from Cons.prems(2) True have f: "x # filter (\<lambda>x. x < k) S = [ln..<k]" by simp
    then have lk: "ln < k" by (cases "ln < k") auto
    from f lk have x: "x = ln" and f': "filter (\<lambda>x. x < k) S = [ln + 1..<k]"
      by (simp_all add: upt_conv_Cons)
    from Cons.prems(3) True have g': "filter (\<lambda>x. \<not> x < k) S = [inn..<length nodes]" by simp
    have e: "?enc x = CHR ''1'' # binary_converter_encode (N ! x)"
      using True by (simp add: enc_node_def)
    have d: "drop first input = CHR ''1'' # (binary_converter_encode (N ! x) @ ?tl)"
      using Cons.prems(1) by (simp add: e)
    have ne: "binary_converter_encode (N ! x) \<noteq> []"
      using binary_converter_encode_length [of "N ! x"] by (metis length_0_conv zero_neq_numeral)
    note d1 = drop_eq_ConsD [OF d]
    note d2 = drop_eq_appendD [OF d1(3) ne]
    have t8: "take 8 (drop (first + 1) input) = binary_converter_encode (N ! x)"
      using d2(2) by (simp add: binary_converter_encode_length)
    have d3: "drop (first + 1 + 8) input = ?tl"
      using d2(3) by (simp add: binary_converter_encode_length)
    have le: "\<not> length input < first + 1 + 8"
      using d2(1) by (simp add: binary_converter_encode_length)
    have ln: "\<not> length nodes \<le> ln" using lk Cons.prems(5) by simp
    have g'': "filter (\<lambda>x. \<not> x < k) S
        = [inn..<length (nodes[ln := (int i, snd (N ! x))])]" using g' by simp
    have k': "k \<le> length (nodes[ln := (int i, snd (N ! x))])" using Cons.prems(5) by simp
    have step: "read_header_loop binary_converter_decode input (length (x # S)) i nodes ln inn first
        = read_header_loop binary_converter_decode input (length S) (i + 1)
            (nodes[ln := (int i, snd (N ! x))]) (ln + 1) inn (first + 1 + 8)"
      using d1(1,2) t8 le ln by (simp add: binary_converter_roundtrip)
    have "place N k i (x # S) nodes = place N k (i + 1) S (nodes[ln := (int i, snd (N ! x))])"
      using True x by simp
    moreover have "first + length (concat (map ?enc (x # S)))
        = first + 1 + 8 + length (concat (map ?enc S))"
      by (simp add: e binary_converter_encode_length)
    ultimately show ?thesis
      unfolding step using Cons.IH [OF d3 f' g'' Cons.prems(4) k'] by simp
  next
    case False
    from Cons.prems(3) False have f: "x # filter (\<lambda>x. \<not> x < k) S = [inn..<length nodes]" by simp
    then have lk: "inn < length nodes" by (cases "inn < length nodes") auto
    from f lk have x: "x = inn" and f': "filter (\<lambda>x. \<not> x < k) S = [inn + 1..<length nodes]"
      by (simp_all add: upt_conv_Cons)
    from Cons.prems(2) False have g': "filter (\<lambda>x. x < k) S = [ln..<k]" by simp
    have e: "?enc x = ''0''" using False by (simp add: enc_node_def)
    have d: "drop first input = CHR ''0'' # ?tl"
      using Cons.prems(1) by (simp add: e)
    note d1 = drop_eq_ConsD [OF d]
    have f'': "filter (\<lambda>x. \<not> x < k) S
        = [inn + 1..<length (nodes[inn := (int i, CHR 0x00)])]" using f' by simp
    have k': "k \<le> length (nodes[inn := (int i, CHR 0x00)])" using Cons.prems(5) by simp
    have k'': "k \<le> inn + 1" using Cons.prems(4) by simp
    have step: "read_header_loop binary_converter_decode input (length (x # S)) i nodes ln inn first
        = read_header_loop binary_converter_decode input (length S) (i + 1)
            (nodes[inn := (int i, CHR 0x00)]) ln (inn + 1) (first + 1)"
      using d1(1,2) lk by simp
    have "place N k i (x # S) nodes = place N k (i + 1) S (nodes[inn := (int i, CHR 0x00)])"
      using False x by simp
    moreover have "first + length (concat (map ?enc (x # S)))
        = first + 1 + length (concat (map ?enc S))"
      by (simp add: e)
    ultimately show ?thesis
      unfolding step using Cons.IH [OF d1(3) g' f'' k'' k'] by simp
  qed
qed

lemma place_length: "length (place N k i S nodes) = length nodes"
  by (induction S arbitrary: i nodes) simp_all

lemma place_other: "x \<notin> set S \<Longrightarrow> place N k i S nodes ! x = nodes ! x"
  by (induction S arbitrary: i nodes) auto

lemma place_nth:
  assumes "distinct S" "\<forall>x \<in> set S. x < length nodes" "p < length S"
  shows "place N k i S nodes ! (S ! p)
       = (int (i + p), if S ! p < k then snd (N ! (S ! p)) else CHR 0x00)"
  using assms
proof (induction S arbitrary: i nodes p)
  case Nil
  then show ?case by simp
next
  case (Cons x S)
  show ?case
  proof (cases p)
    case 0
    from Cons.prems(1) have "x \<notin> set S" by simp
    from place_other [OF this] Cons.prems(2) show ?thesis by (simp add: 0)
  next
    case (Suc q)
    with Cons.prems have "distinct S"
      "\<forall>y \<in> set S. y < length (nodes[x := (int i, if x < k then snd (N ! x) else CHR 0x00)])"
      "q < length S" by simp_all
    from Cons.IH [OF this, of "i + 1"] show ?thesis by (simp add: Suc)
  qed
qed

lemma filters_perm:
  assumes "filter (\<lambda>x. x < k) S = [0..<k]" "filter (\<lambda>x. \<not> x < k) S = [k..<n]" "k \<le> n"
  shows "distinct S" "set S = {0..<n}" "length S = n"
proof -
  have "mset S = mset (filter (\<lambda>x. x < k) S) + mset (filter (\<lambda>x. \<not> x < k) S)" by simp
  also have "\<dots> = mset ([0..<k] @ [k..<n])" unfolding assms(1,2) by simp
  also have "[0..<k] @ [k..<n] = [0..<n]" using assms(3) by (metis le0 upt_add_eq_append le_Suc_ex)
  finally have m: "mset S = mset [0..<n]" .
  then show "distinct S" by (metis distinct_upt mset_eq_imp_distinct_iff)
  from m show "set S = {0..<n}" by (metis mset_eq_setD atLeastLessThan_upt)
  from m show "length S = n" by (metis size_mset length_upt diff_zero)
qed

lemma read_header_run:
  assumes "filter (\<lambda>x. x < k) S = [0..<k]" "filter (\<lambda>x. \<not> x < k) S = [k..<n]"
    and "k = n div 2 + 1" "k \<le> n" "n < 65536"
  shows "read_header binary_converter_decode
           (bitset_to_string 16 n @ concat (map (enc_node binary_converter_encode N k) S) @ payload)
       = Inr (place N k 0 S (replicate n (0, CHR 0x00)),
              16 + length (concat (map (enc_node binary_converter_encode N k) S)))"
proof -
  let ?body = "concat (map (enc_node binary_converter_encode N k) S)"
  let ?input = "bitset_to_string 16 n @ ?body @ payload"
  have t: "take 16 ?input = bitset_to_string 16 n" by (simp add: bitset_to_string_length)
  have b: "bitset_of_string (take 16 ?input) = Inr n"
    unfolding t bitset_of_string_bitset using assms(5) by simp
  have l: "\<not> length ?input < 16" by (simp add: bitset_to_string_length)
  have d: "drop 16 ?input = ?body @ payload" by (simp add: bitset_to_string_length)
  have lS: "length S = n" by (rule filters_perm(3) [OF assms(1,2,4)])
  have f2: "filter (\<lambda>x. \<not> x < k) S = [k..<length (replicate n (0::int, CHR 0x00))]"
    using assms(2) by simp
  have kn: "k \<le> length (replicate n (0::int, CHR 0x00))" using assms(4) by simp
  have "read_header binary_converter_decode ?input
      = read_header_loop binary_converter_decode ?input n 0 (replicate n (0, CHR 0x00)) 0 k 16"
    unfolding read_header_def b using l assms(3) by (simp add: Let_def)
  also have "\<dots> = Inr (place N k 0 S (replicate n (0, CHR 0x00)), 16 + length ?body)"
    using read_header_loop_run [OF d assms(1) f2 order_refl kn, of 0] unfolding lS .
  finally show ?thesis .
qed

section \<open>The decoder regenerates the code table of the encoder\<close>

lemma next_node_agree:
  assumes "length ys = length xs" "f1 \<le> l1" "l1 \<le> f0"
    and "\<And>i j. i < l1 \<Longrightarrow> l1 \<le> j \<Longrightarrow> j < length xs \<Longrightarrow> c1 (xs ! i) (xs ! j) = c2 (ys ! i) (ys ! j)"
  shows "next_node c1 xs f0 l0 f1 l1 = next_node c2 ys f0 l0 f1 l1"
proof (cases "f1 \<noteq> l1 \<and> f0 \<noteq> l0 \<and> f1 < length xs \<and> f0 < length xs")
  case True
  then have "f1 < l1" using assms(2) by simp
  from assms(4) [OF this assms(3)] True have "c1 (xs ! f1) (xs ! f0) = c2 (ys ! f1) (ys ! f0)" by simp
  with True assms(1) show ?thesis by (simp add: next_node_def)
next
  case False
  with assms(1) show ?thesis by (auto simp: next_node_def)
qed

lemma next_node_cursors:
  assumes "next_node c xs f0 l0 f1 l1 = Inr (x, f0', f1')" "f1 \<le> l1" "l1 \<le> f0"
  shows "f1' \<le> l1 \<and> l1 \<le> f0'"
  using assms by (auto simp: next_node_def split: if_splits)

lemma generate_codes_loop_agree:
  assumes "length ys = length xs" "f1 \<le> l1" "l1 \<le> f0"
    and "\<And>i j. i < l1 \<Longrightarrow> l1 \<le> j \<Longrightarrow> j < length xs \<Longrightarrow> c1 (xs ! i) (xs ! j) = c2 (ys ! i) (ys ! j)"
  shows "generate_codes_loop c1 xs l0 l1 cap n pfxs current f0 f1 out
       = generate_codes_loop c2 ys l0 l1 cap n pfxs current f0 f1 out"
  using assms(2,3)
proof (induction n arbitrary: pfxs current f0 f1 out)
  case 0
  show ?case by simp
next
  case (Suc n)
  note ag = assms(4)
  have n1: "next_node c1 xs f0 l0 f1 l1 = next_node c2 ys f0 l0 f1 l1"
    by (rule next_node_agree [where ?c1.0 = c1 and ?c2.0 = c2, OF assms(1) Suc.prems ag])
  show ?case
  proof (cases "length pfxs \<le> current")
    case True
    then show ?thesis by simp
  next
    case nl: False
    show ?thesis
    proof (cases "l1 \<le> fst (pfxs ! current)")
      case True
      with nl Suc.IH [OF Suc.prems] show ?thesis by simp
    next
      case nleaf: False
      show ?thesis
      proof (cases "next_node c2 ys f0 l0 f1 l1")
        case (Inl e)
        with n1 nl nleaf show ?thesis by simp
      next
        case (Inr r)
        obtain x f0a f1a where r: "r = (x, f0a, f1a)" by (cases r)
        from n1 Inr r have e1: "next_node c1 xs f0 l0 f1 l1 = Inr (x, f0a, f1a)" by simp
        from next_node_cursors [OF e1 Suc.prems] have ca: "f1a \<le> l1" "l1 \<le> f0a" by simp_all
        have n2: "next_node c1 xs f0a l0 f1a l1 = next_node c2 ys f0a l0 f1a l1"
          by (rule next_node_agree [where ?c1.0 = c1 and ?c2.0 = c2, OF assms(1) ca ag])
        show ?thesis
        proof (cases "next_node c2 ys f0a l0 f1a l1")
          case (Inl e)
          with n1 n2 Inr r nl nleaf show ?thesis by simp
        next
          case r2: (Inr r')
          obtain y f0b f1b where r': "r' = (y, f0b, f1b)" by (cases r')
          from n2 r2 r' have e2: "next_node c1 xs f0a l0 f1a l1 = Inr (y, f0b, f1b)" by simp
          from next_node_cursors [OF e2 ca] have cb: "f1b \<le> l1" "l1 \<le> f0b" by simp_all
          from Suc.IH [OF cb] n1 n2 Inr r r2 r' nl nleaf show ?thesis by simp
        qed
      qed
    qed
  qed
qed

lemma generate_codes_agree:
  assumes "length ys = length xs" "0 < l1" "l1 \<le> f0"
    and "\<And>i j. i < l1 \<Longrightarrow> l1 \<le> j \<Longrightarrow> j < length xs \<Longrightarrow> c1 (xs ! i) (xs ! j) = c2 (ys ! i) (ys ! j)"
  shows "generate_codes c1 xs f0 l0 0 l1 = generate_codes c2 ys f0 l0 0 l1"
proof -
  have "(0::nat) + 1 \<le> l1" using assms(2) by simp
  from generate_codes_loop_agree [where ?c1.0 = c1 and ?c2.0 = c2, OF assms(1) this assms(3,4)] assms(1)
  show ?thesis by (simp add: generate_codes_def)
qed

lemma place_order:
  assumes "distinct S" "set S = {0..<n}" "sorted_wrt (merge_before N k) S"
    and "u < k" "k \<le> v" "v < n"
  shows "fst (place N k 0 S (replicate n (0, CHR 0x00)) ! v)
           < fst (place N k 0 S (replicate n (0, CHR 0x00)) ! u)
     \<longleftrightarrow> fst (N ! v) < fst (N ! u)"
proof -
  let ?D = "place N k 0 S (replicate n (0, CHR 0x00))"
  have b: "\<forall>x \<in> set S. x < length (replicate n (0::int, CHR 0x00))" using assms(2) by simp
  have "u \<in> set S" "v \<in> set S" using assms(2,4,5,6) by auto
  then obtain p q where p: "p < length S" "S ! p = u" and q: "q < length S" "S ! q = v"
    by (metis in_set_conv_nth)
  from place_nth [OF assms(1) b p(1), of N k 0] p(2) have du: "fst (?D ! u) = int p" by simp
  from place_nth [OF assms(1) b q(1), of N k 0] q(2) have dv: "fst (?D ! v) = int q" by simp
  have ne: "p \<noteq> q" using p q assms(4,5) by auto
  show ?thesis
  proof (cases "q < p")
    case True
    from sorted_wrt_nth_less [OF assms(3) True p(1)] p(2) q(2) assms(4,5)
    have "fst (N ! v) < fst (N ! u)" by (simp add: merge_before_def)
    with True du dv show ?thesis by simp
  next
    case False
    with ne have pq: "p < q" by simp
    from sorted_wrt_nth_less [OF assms(3) pq q(1)] p(2) q(2) assms(4,5)
    have "fst (N ! u) \<le> fst (N ! v)" by (simp add: merge_before_def)
    with False du dv show ?thesis by simp
  qed
qed

lemma place_symbol:
  assumes "distinct S" "set S = {0..<n}" "u < k" "u < n"
  shows "snd (place N k 0 S (replicate n (0, CHR 0x00)) ! u) = snd (N ! u)"
proof -
  have b: "\<forall>x \<in> set S. x < length (replicate n (0::int, CHR 0x00))" using assms(2) by simp
  have "u \<in> set S" using assms(2,4) by auto
  then obtain p where p: "p < length S" "S ! p = u" by (metis in_set_conv_nth)
  from place_nth [OF assms(1) b p(1), of N k 0] p(2) assms(3) show ?thesis by simp
qed

lemma decoder_prefixes_agree:
  fixes L I :: "(int \<times> char) list"
  assumes "merge_array L I"
    and "filter (\<lambda>x. x < length L) S = [0..<length L]"
    and "filter (\<lambda>x. \<not> x < length L) S = [length L..<length L + length I]"
    and "sorted_wrt (merge_before (L @ I) (length L)) S"
    and "encoder_codes (compare_first (<)) (length L) (L @ I) = Inr out"
    and "map fst out = [length I..<length L + length I]"
  defines "D \<equiv> place (L @ I) (length L) 0 S (replicate (length L + length I) (0, CHR 0x00))"
  shows "decoder_prefixes D = Inr out"
    "map (\<lambda>c. snd (rev D ! fst c)) out = map (\<lambda>c. snd (rev (L @ I) ! fst c)) out"
    "length D = length L + length I"
proof -
  let ?N = "L @ I" and ?k = "length L" and ?n = "length L + length I"
  from assms(1) have k: "2 \<le> ?k" "length I = ?k - 1" by (auto simp: merge_array_def)
  have kn: "?k \<le> ?n" by simp
  note perm = filters_perm [OF assms(2,3) kn]
  show lD: "length D = ?n" by (simp add: D_def place_length)
  have half: "length D div 2 + 1 = ?k" unfolding lD using k by simp
  have l1: "length D - ?k = length I" unfolding lD by simp
  have ag: "not2 (compare_first (<)) (rev ?N ! i) (rev ?N ! j) = decoder_cmp (rev D ! i) (rev D ! j)"
    if "i < length I" "length I \<le> j" "j < length (rev ?N)" for i j
  proof -
    have i: "rev ?N ! i = ?N ! (?n - 1 - i)" "rev D ! i = D ! (?n - 1 - i)"
      using that lD by (simp_all add: rev_nth del: rev_append)
    have j: "rev ?N ! j = ?N ! (?n - 1 - j)" "rev D ! j = D ! (?n - 1 - j)"
      using that lD by (simp_all add: rev_nth del: rev_append)
    have u: "?n - 1 - j < ?k" using that k by simp
    have v: "?k \<le> ?n - 1 - i" "?n - 1 - i < ?n" using that k by simp_all
    from place_order [OF perm(1,2) assms(4) u v, folded D_def]
    show ?thesis unfolding i j by (simp add: not2_def compare_first_def decoder_cmp_def)
  qed
  have "generate_codes decoder_cmp (rev D) (length I) (length D) 0 (length I)
      = generate_codes (not2 (compare_first (<))) (rev ?N) (length I) (length D) 0 (length I)"
  proof (rule sym, rule generate_codes_agree [where ?c1.0 = "not2 (compare_first (<))" and ?c2.0 = decoder_cmp])
    show "length (rev D) = length (rev ?N)" using lD by simp
    show "0 < length I" using k by simp
    show "length I \<le> length I" ..
    show "not2 (compare_first (<)) (rev ?N ! i) (rev ?N ! j) = decoder_cmp (rev D ! i) (rev D ! j)"
      if "i < length I" "length I \<le> j" "j < length (rev ?N)" for i j
      using that by (rule ag)
  qed
  also have "\<dots> = Inr out"
    using assms(5) unfolding lD by (simp add: encoder_codes_def add.commute)
  finally have g: "generate_codes decoder_cmp (rev D) (length I) (length D) 0 (length I) = Inr out" .
  show "decoder_prefixes D = Inr out"
    unfolding decoder_prefixes_def Let_def half l1 g using lD by simp
  show "map (\<lambda>c. snd (rev D ! fst c)) out = map (\<lambda>c. snd (rev ?N ! fst c)) out"
  proof (rule map_cong [OF refl])
    fix c assume "c \<in> set out"
    then have "fst c \<in> set (map fst out)" by simp
    then have r: "length I \<le> fst c" "fst c < ?n" unfolding assms(6) by simp_all
    have u: "?n - 1 - fst c < ?k" "?n - 1 - fst c < ?n" using r k by simp_all
    have "rev ?N ! fst c = ?N ! (?n - 1 - fst c)" "rev D ! fst c = D ! (?n - 1 - fst c)"
      using r lD by (simp_all add: rev_nth del: rev_append)
    with place_symbol [OF perm(1,2) u, of ?N, folded D_def]
    show "snd (rev D ! fst c) = snd (rev ?N ! fst c)" by simp
  qed
qed

lemma card_string_le: "card (set (input :: string)) \<le> 256"
proof -
  have "card (set input) \<le> card (UNIV :: char set)" by (rule card_mono) simp_all
  then show ?thesis by (simp add: card_UNIV_char)
qed

lemma compress_decoder_run:
  fixes input :: string
  assumes "std_sort srt" "2 \<le> card (set input)"
  defines "leaves \<equiv> srt (unique_copy_with_count (sort input))"
  obtains I hdr out D where
    "merge_array leaves I"
    "build_huffman_array (compare_first (<)) (merge_first_op (+)) leaves = Some (Inr (leaves @ I))"
    "encoder_codes (compare_first (<)) (length leaves) (leaves @ I) = Inr out"
    "map fst out = [length I..<length leaves + length I]"
    "antichain (map snd out)" "[] \<notin> set (map snd out)"
    "sorted (map (\<lambda>x. length (snd x)) out)"
    "map (\<lambda>c. snd (rev (leaves @ I) ! fst c)) out = rev (map snd leaves)"
    "compress srt input
       = Some (Inr (hdr @ concat (map (st_at (foldl (st_op get_second (rev (leaves @ I))) Map.empty out)) input)))"
    "\<And>payload. read_header binary_converter_decode (hdr @ payload) = Inr (D, length hdr)"
    "decoder_prefixes D = Inr out"
    "map (\<lambda>c. snd (rev D ! fst c)) out = map (\<lambda>c. snd (rev (leaves @ I) ! fst c)) out"
    "length D = length leaves + length I"
proof -
  note lv = compress_leaves [OF assms(1), of input, folded leaves_def]
  from compress_run [OF assms(1,2), folded leaves_def] obtain I S out0 where
    ma: "merge_array leaves I" and
    b: "build_huffman_array (compare_first (<)) (merge_first_op (+)) leaves = Some (Inr (leaves @ I))" and
    f: "filter (\<lambda>x. x < length leaves) S = [0..<length leaves]"
      "filter (\<lambda>x. \<not> x < length leaves) S = [length leaves..<length leaves + length I]" and
    sw: "sorted_wrt (merge_before (leaves @ I) (length leaves)) S" and
    e0: "encoder_codes (compare_first (<)) (length leaves) (leaves @ I) = Inr out0" and
    c: "compress srt input
       = Some (Inr ((bitset_to_string 16 (length (leaves @ I))
                    @ concat (map (enc_node binary_converter_encode (leaves @ I) (length leaves)) S))
             @ concat (map (st_at (foldl (st_op get_second (rev (leaves @ I))) Map.empty out0)) input)))"
    by metis
  from encoder_codes_ok [OF ma] obtain out where
    e: "encoder_codes (compare_first (<)) (length leaves) (leaves @ I) = Inr out" and
    o: "map fst out = [length I..<length leaves + length I]"
      "antichain (map snd out)" "[] \<notin> set (map snd out)"
      "sorted (map (\<lambda>x. length (snd x)) out)"
      "map (\<lambda>c. snd (rev (leaves @ I) ! fst c)) out = rev (map snd leaves)"
    by blast
  from e e0 have oo: "out0 = out" by simp
  from ma have lI: "length I = length leaves - 1" "2 \<le> length leaves"
    by (auto simp: merge_array_def)
  let ?n = "length leaves + length I"
  let ?body = "concat (map (enc_node binary_converter_encode (leaves @ I) (length leaves)) S)"
  define hdr where "hdr = bitset_to_string 16 ?n @ ?body"
  define D where "D = place (leaves @ I) (length leaves) 0 S (replicate ?n (0, CHR 0x00))"
  have half: "length leaves = ?n div 2 + 1" using lI by simp
  have small: "?n < 65536" using lI lv(2) card_string_le [of input] by simp
  have rh: "read_header binary_converter_decode (hdr @ payload) = Inr (D, length hdr)" for payload
    using read_header_run [OF f half _ small, of "leaves @ I" payload]
    by (simp add: hdr_def D_def bitset_to_string_length)
  note dp = decoder_prefixes_agree [OF ma f sw e o(1), folded D_def]
  show thesis
  proof (rule that [of I out hdr D])
    show "compress srt input
       = Some (Inr (hdr @ concat (map (st_at (foldl (st_op get_second (rev (leaves @ I))) Map.empty out)) input)))"
      using c by (simp add: hdr_def oo)
  qed (fact ma b e o rh dp)+
qed

text \<open>
  Claim C2.  For every input with at least two distinct symbols (and a length that
  \<^verbatim>\<open>ptrdiff_t\<close> can count), \<^verbatim>\<open>compress\<close> returns a bit string; \<^verbatim>\<open>read_header\<close> on that bit
  string returns a node array, and the candidate list that the decoder generates from it is
  the same list of (position, code) pairs as the code table that the encoder generates from
  the merge array with the negated comparator.  The symbols stored at these positions in the
  decoder's array are the symbols at these positions in the encoder's array, and they are
  exactly the symbols of the input: every leaf symbol has the same code on both sides.
\<close>
theorem encoder_decoder_same_codes:
  fixes input :: string
  assumes "std_sort srt" "2 \<le> card (set input)" "length input < 2 ^ 63"
  shows "\<exists>nodes codes bits dnodes first.
      build_huffman_array (compare_first (<)) (merge_first_op (+))
        (srt (unique_copy_with_count (sort input))) = Some (Inr nodes)
    \<and> list_all (\<lambda>p. in_ptrdiff (fst p)) nodes
    \<and> encoder_codes (compare_first (<)) (card (set input)) nodes = Inr codes
    \<and> compress srt input = Some (Inr bits)
    \<and> read_header binary_converter_decode bits = Inr (dnodes, first)
    \<and> decoder_prefixes dnodes = Inr codes
    \<and> map (\<lambda>c. snd (rev dnodes ! fst c)) codes = map (\<lambda>c. get_second (rev nodes ! fst c)) codes
    \<and> set (map (\<lambda>c. get_second (rev nodes ! fst c)) codes) = set input"
proof -
  define leaves where "leaves = srt (unique_copy_with_count (sort input))"
  note lv = compress_leaves [OF assms(1), of input, folded leaves_def]
  from compress_decoder_run [OF assms(1,2), folded leaves_def] obtain I hdr out D where
    b: "build_huffman_array (compare_first (<)) (merge_first_op (+)) leaves = Some (Inr (leaves @ I))" and
    e: "encoder_codes (compare_first (<)) (length leaves) (leaves @ I) = Inr out" and
    sy: "map (\<lambda>c. snd (rev (leaves @ I) ! fst c)) out = rev (map snd leaves)" and
    c: "compress srt input
       = Some (Inr (hdr @ concat (map (st_at (foldl (st_op get_second (rev (leaves @ I))) Map.empty out)) input)))" and
    rh: "\<And>payload. read_header binary_converter_decode (hdr @ payload) = Inr (D, length hdr)" and
    dp: "decoder_prefixes D = Inr out" and
    ds: "map (\<lambda>c. snd (rev D ! fst c)) out = map (\<lambda>c. snd (rev (leaves @ I) ! fst c)) out"
    by metis
  show ?thesis
  proof (intro exI conjI)
    show "build_huffman_array (compare_first (<)) (merge_first_op (+))
        (srt (unique_copy_with_count (sort input))) = Some (Inr (leaves @ I))"
      using b by (simp add: leaves_def)
    show "list_all (\<lambda>p. in_ptrdiff (fst p)) (leaves @ I)"
      using compress_nodes_in_range [OF assms b [unfolded leaves_def]] by (simp only: leaves_def)
    show "encoder_codes (compare_first (<)) (card (set input)) (leaves @ I) = Inr out"
      using e lv(2) by simp
    show "compress srt input
       = Some (Inr (hdr @ concat (map (st_at (foldl (st_op get_second (rev (leaves @ I))) Map.empty out)) input)))"
      by (rule c)
    show "read_header binary_converter_decode
        (hdr @ concat (map (st_at (foldl (st_op get_second (rev (leaves @ I))) Map.empty out)) input))
        = Inr (D, length hdr)" by (rule rh)
    show "decoder_prefixes D = Inr out" by (rule dp)
    show "map (\<lambda>c. snd (rev D ! fst c)) out = map (\<lambda>c. get_second (rev (leaves @ I) ! fst c)) out"
      using ds by (simp add: get_second_def)
    show "set (map (\<lambda>c. get_second (rev (leaves @ I) ! fst c)) out) = set input"
      using arg_cong [OF sy, of set] lv(5) by (simp add: get_second_def)
  qed
qed

theorem encoder_decoder_same_codes_witness:
  "\<exists>nodes codes bits dnodes first.
      build_huffman_array (compare_first (<)) (merge_first_op (+))
        (sort_key fst (unique_copy_with_count (sort ''abracadabra''))) = Some (Inr nodes)
    \<and> list_all (\<lambda>p. in_ptrdiff (fst p)) nodes
    \<and> encoder_codes (compare_first (<)) 5 nodes = Inr codes
    \<and> compress (sort_key fst) ''abracadabra'' = Some (Inr bits)
    \<and> read_header binary_converter_decode bits = Inr (dnodes, first)
    \<and> decoder_prefixes dnodes = Inr codes
    \<and> map (\<lambda>c. snd (rev dnodes ! fst c)) codes = map (\<lambda>c. get_second (rev nodes ! fst c)) codes
    \<and> set (map (\<lambda>c. get_second (rev nodes ! fst c)) codes) = set ''abracadabra''"
proof -
  have h: "2 \<le> card (set ''abracadabra'')" "length ''abracadabra'' < 2 ^ 63"
    unfolding card_abracadabra by simp_all
  show ?thesis
    using encoder_decoder_same_codes [OF std_sort_sort_key h, unfolded card_abracadabra] .
qed

section \<open>Decoding the payload\<close>

lemma read_bits_run:
  assumes "drop cur0 inp = code @ rest" "sz \<le> length code" "m \<le> length code"
  shows "read_bits inp sz (cur0 + m) (take m code) = Inr (cur0 + max m sz, take (max m sz) code)"
  using assms(3)
proof (induction "sz - m" arbitrary: m)
  case 0
  then have "sz \<le> length (take m code)" "max m sz = m" by simp_all
  then show ?case by (simp add: read_bits_enough)
next
  case (Suc d)
  then have lt: "m < sz" by simp
  with assms(2) have mc: "m < length code" by simp
  have len: "length inp - cur0 = length code + length rest"
    using arg_cong [OF assms(1), of length] by simp
  with mc have c: "cur0 + m < length inp" by simp
  have "inp ! (cur0 + m) = drop cur0 inp ! m" using c by simp
  also have "\<dots> = code ! m" unfolding assms(1) using mc by (simp add: nth_append)
  finally have nx: "take m code @ [inp ! (cur0 + m)] = take (Suc m) code"
    using mc by (simp add: take_Suc_conv_app_nth)
  have d: "d = sz - Suc m" using Suc(2) by simp
  have sm: "Suc m \<le> length code" using mc by simp
  have "read_bits inp sz (cur0 + m) (take m code)
      = read_bits inp sz (cur0 + Suc m) (take (Suc m) code)"
    using lt c mc by (subst read_bits.simps) (simp add: nx min_absorb2)
  also have "\<dots> = Inr (cur0 + max (Suc m) sz, take (max (Suc m) sz) code)"
    by (rule Suc(1) [OF d sm])
  also have "max (Suc m) sz = max m sz" using lt by simp
  finally show ?case .
qed

lemma match_prefix_scan:
  assumes "drop cur0 inp = code @ rest" "t < length xs"
    and "\<forall>p \<in> set pre. length (snd p) \<le> length code \<and> \<not> prefix (snd p) code"
    and "m \<le> length code"
  shows "match_prefix inp xs (pre @ (t, code) # post) (cur0 + m) (take m code)
       = Inr (Match (snd (xs ! t)) (cur0 + length code))"
  using assms(3,4)
proof (induction pre arbitrary: m)
  case Nil
  from read_bits_run [OF assms(1) order_refl Nil(2)] Nil(2) assms(2)
  show ?case by (simp add: max_absorb2)
next
  case (Cons p pre)
  from Cons.prems(1) have p: "length (snd p) \<le> length code" "\<not> prefix (snd p) code"
    and rest: "\<forall>q \<in> set pre. length (snd q) \<le> length code \<and> \<not> prefix (snd q) code" by simp_all
  let ?m = "max m (length (snd p))"
  have m': "?m \<le> length code" using Cons.prems(2) p(1) by simp
  have r: "read_bits inp (length (snd p)) (cur0 + m) (take m code) = Inr (cur0 + ?m, take ?m code)"
    by (rule read_bits_run [OF assms(1) p(1) Cons.prems(2)])
  have ne: "take ?m code \<noteq> snd p"
  proof
    assume "take ?m code = snd p"
    then have "prefix (snd p) code" by (metis take_is_prefix)
    with p(2) show False ..
  qed
  from Cons.IH [OF rest m'] r ne show ?case by simp
qed

lemma match_prefix_hit:
  assumes "c \<in> set pfxs" "antichain (map snd pfxs)"
    and "sorted (map (\<lambda>x. length (snd x)) pfxs)"
    and "drop cur inp = snd c @ rest" "fst c < length xs"
  shows "match_prefix inp xs pfxs cur [] = Inr (Match (snd (xs ! fst c)) (cur + length (snd c)))"
proof -
  from assms(1) obtain pre post where sp: "pfxs = pre @ c # post"
    by (meson split_list)
  have pre: "length (snd p) \<le> length (snd c) \<and> \<not> prefix (snd p) (snd c)" if "p \<in> set pre" for p
  proof
    have "sorted (map (\<lambda>x. length (snd x)) pre @ length (snd c) # map (\<lambda>x. length (snd x)) post)"
      using assms(3) unfolding sp by simp
    then show "length (snd p) \<le> length (snd c)"
      using that by (auto simp: sorted_append)
    show "\<not> prefix (snd p) (snd c)"
    proof
      assume px: "prefix (snd p) (snd c)"
      have "snd p \<in> set (map snd pfxs)" "snd c \<in> set (map snd pfxs)"
        using that unfolding sp by simp_all
      with assms(2) px have e: "snd p = snd c" unfolding antichain_def by blast
      have "distinct (map snd pre @ snd c # map snd post)"
        using assms(2) unfolding antichain_def sp by simp
      then have "snd c \<notin> set (map snd pre)" by simp
      moreover have "snd p \<in> set (map snd pre)" using that by simp
      ultimately show False using e by simp
    qed
  qed
  have "match_prefix inp xs (pre @ (fst c, snd c) # post) (cur + 0) (take 0 (snd c))
      = Inr (Match (snd (xs ! fst c)) (cur + length (snd c)))"
    by (rule match_prefix_scan [OF assms(4,5)]) (use pre in simp_all)
  then show ?thesis unfolding sp by simp
qed

lemma decode_loop_run:
  assumes "antichain (map snd pfxs)" "sorted (map (\<lambda>x. length (snd x)) pfxs)"
    and "[] \<notin> set (map snd pfxs)" "\<forall>c \<in> set pfxs. fst c < length xs"
    and "set es \<subseteq> set pfxs" "drop cur inp = concat (map snd es)" "cur \<le> length inp"
  shows "decode_loop inp xs pfxs cur [] res = Some (Inr (res @ map (\<lambda>c. snd (xs ! fst c)) es))"
  using assms(5,6,7)
proof (induction es arbitrary: cur res)
  case Nil
  then have "cur = length inp" by simp
  then show ?case by (subst decode_loop.simps) simp
next
  case (Cons e es)
  from Cons.prems(1) have e: "e \<in> set pfxs" and es: "set es \<subseteq> set pfxs" by simp_all
  from e assms(3) have ne: "snd e \<noteq> []" by force
  from e assms(4) have lt: "fst e < length xs" by simp
  have d: "drop cur inp = snd e @ concat (map snd es)" using Cons.prems(2) by simp
  note d' = drop_eq_appendD [OF d ne]
  have "length inp - cur = length (snd e) + length (concat (map snd es))"
    using arg_cong [OF d, of length] by simp
  with ne have nl: "cur \<noteq> length inp" by (cases "snd e") auto
  note hit = match_prefix_hit [OF e assms(1,2) d lt]
  have "decode_loop inp xs pfxs cur [] res
      = decode_loop inp xs pfxs (cur + length (snd e)) [] (res @ [snd (xs ! fst e)])"
    using nl hit by (subst decode_loop.simps) simp
  also have "\<dots> = Some (Inr ((res @ [snd (xs ! fst e)]) @ map (\<lambda>c. snd (xs ! fst c)) es))"
    by (rule Cons.IH [OF es d'(3) d'(1)])
  finally show ?case by simp
qed

lemma st_fold_keeps:
  "st s = Some v \<Longrightarrow> foldl (st_op f xs) st out s = Some v"
proof (induction out arbitrary: st)
  case Nil
  then show ?case by simp
next
  case (Cons a out)
  have "st_op f xs st a s = Some v"
    using Cons.prems by (auto simp: st_op_def split: option.splits)
  from Cons.IH [of "st_op f xs st a", OF this] show ?case by simp
qed

lemma st_fold_lookup:
  assumes "distinct (map (\<lambda>c. f (xs ! fst c)) out)" "\<forall>c \<in> set out. st (f (xs ! fst c)) = None"
    and "c \<in> set out"
  shows "foldl (st_op f xs) st out (f (xs ! fst c)) = Some (snd c)"
  using assms
proof (induction out arbitrary: st)
  case Nil
  then show ?case by simp
next
  case (Cons a out)
  let ?g = "\<lambda>c. f (xs ! fst c)"
  from Cons.prems(2) have st1: "st_op f xs st a = st(?g a \<mapsto> snd a)"
    by (simp add: st_op_def)
  show ?case
  proof (cases "c = a")
    case True
    have "(st(?g a \<mapsto> snd a)) (?g a) = Some (snd a)" by simp
    from st_fold_keeps [of "st(?g a \<mapsto> snd a)" "?g a" "snd a" f xs out, OF this]
    show ?thesis by (simp add: st1 True)
  next
    case False
    with Cons.prems(3) have c: "c \<in> set out" by simp
    from Cons.prems(1) have d: "distinct (map ?g out)" and na: "?g a \<notin> ?g ` set out" by simp_all
    have n: "\<forall>c \<in> set out. (st(?g a \<mapsto> snd a)) (?g c) = None"
    proof
      fix c' assume c': "c' \<in> set out"
      then have "?g c' \<in> ?g ` set out" by (rule imageI)
      with na have "?g c' \<noteq> ?g a" by metis
      with Cons.prems(2) c' show "(st(?g a \<mapsto> snd a)) (?g c') = None" by simp
    qed
    from Cons.IH [of "st(?g a \<mapsto> snd a)", OF d n c] show ?thesis
      by (simp only: foldl_Cons st1)
  qed
qed

lemma payload_entries:
  assumes "distinct (map (\<lambda>c. f (xs ! fst c)) out)"
    and "set ws \<subseteq> set (map (\<lambda>c. f (xs ! fst c)) out)"
  shows "\<exists>es. set es \<subseteq> set out
      \<and> map snd es = map (st_at (foldl (st_op f xs) Map.empty out)) ws
      \<and> map (\<lambda>c. f (xs ! fst c)) es = ws"
  using assms(2)
proof (induction ws)
  case Nil
  show ?case by (intro exI [of _ "[]"]) simp
next
  case (Cons w ws)
  then obtain es where es: "set es \<subseteq> set out"
    "map snd es = map (st_at (foldl (st_op f xs) Map.empty out)) ws"
    "map (\<lambda>c. f (xs ! fst c)) es = ws" by auto
  from Cons.prems obtain c where c: "c \<in> set out" "f (xs ! fst c) = w" by auto
  have "foldl (st_op f xs) Map.empty out (f (xs ! fst c)) = Some (snd c)"
    by (rule st_fold_lookup [OF assms(1) _ c(1)]) simp
  then have "st_at (foldl (st_op f xs) Map.empty out) w = snd c"
    by (simp add: st_at_def c(2))
  with es c show ?case by (intro exI [of _ "c # es"]) simp
qed

text \<open>
  Claim C1.  For every input with at least two distinct symbols (and a length that
  \<^verbatim>\<open>ptrdiff_t\<close> can count, so that every weight of the merge array is in range),
  \<^verbatim>\<open>compress\<close> returns a bit string, and \<^verbatim>\<open>decompress\<close> on that bit string returns the input.
\<close>
theorem compress_decompress_roundtrip:
  fixes input :: string
  assumes "std_sort srt" "2 \<le> card (set input)" "length input < 2 ^ 63"
  shows "\<exists>nodes bits.
      build_huffman_array (compare_first (<)) (merge_first_op (+))
        (srt (unique_copy_with_count (sort input))) = Some (Inr nodes)
    \<and> list_all (\<lambda>p. in_ptrdiff (fst p)) nodes
    \<and> compress srt input = Some (Inr bits)
    \<and> decompress bits = Some (Inr input)"
proof -
  define leaves where "leaves = srt (unique_copy_with_count (sort input))"
  note lv = compress_leaves [OF assms(1), of input, folded leaves_def]
  from compress_decoder_run [OF assms(1,2), folded leaves_def] obtain I hdr out D where
    b: "build_huffman_array (compare_first (<)) (merge_first_op (+)) leaves = Some (Inr (leaves @ I))" and
    fo: "map fst out = [length I..<length leaves + length I]" and
    ac: "antichain (map snd out)" and ne: "[] \<notin> set (map snd out)" and
    so: "sorted (map (\<lambda>x. length (snd x)) out)" and
    sy: "map (\<lambda>c. snd (rev (leaves @ I) ! fst c)) out = rev (map snd leaves)" and
    c: "compress srt input
       = Some (Inr (hdr @ concat (map (st_at (foldl (st_op get_second (rev (leaves @ I))) Map.empty out)) input)))" and
    rh: "\<And>payload. read_header binary_converter_decode (hdr @ payload) = Inr (D, length hdr)" and
    dp: "decoder_prefixes D = Inr out" and
    ds: "map (\<lambda>c. snd (rev D ! fst c)) out = map (\<lambda>c. snd (rev (leaves @ I) ! fst c)) out" and
    lD: "length D = length leaves + length I"
    by metis
  let ?xs = "rev (leaves @ I)"
  let ?st = "foldl (st_op get_second ?xs) Map.empty out"
  let ?payload = "concat (map (st_at ?st) input)"
  let ?bits = "hdr @ ?payload"
  have sy': "map (\<lambda>c. get_second (?xs ! fst c)) out = rev (map snd leaves)"
    using sy by (simp add: get_second_def)
  have di: "distinct (map (\<lambda>c. get_second (?xs ! fst c)) out)"
    unfolding sy' using lv(4) by simp
  have su: "set input \<subseteq> set (map (\<lambda>c. get_second (?xs ! fst c)) out)"
    unfolding sy' using lv(5) by simp
  from payload_entries [OF di su] obtain es where
    es: "set es \<subseteq> set out" "map snd es = map (st_at ?st) input"
      "map (\<lambda>c. get_second (?xs ! fst c)) es = input" by blast
  have bound: "\<forall>c \<in> set out. fst c < length (rev D)"
  proof
    fix c assume "c \<in> set out"
    then have "fst c \<in> set (map fst out)" by simp
    then show "fst c < length (rev D)" unfolding fo using lD by simp
  qed
  have dr: "drop (length hdr) ?bits = concat (map snd es)" by (simp add: es(2))
  have le: "length hdr \<le> length ?bits" by simp
  have same: "snd (rev D ! fst c) = get_second (?xs ! fst c)" if "c \<in> set es" for c
  proof -
    from that es(1) have "c \<in> set out" by blast
    with ds show ?thesis unfolding get_second_def by (meson map_eq_conv)
  qed
  have "decompress ?bits = decode_loop ?bits (rev D) out (length hdr) [] []"
    by (simp add: decompress_def huffman_decoder_def rh dp)
  also have "\<dots> = Some (Inr ([] @ map (\<lambda>c. snd (rev D ! fst c)) es))"
    by (rule decode_loop_run [OF ac so ne bound es(1) dr le])
  also have "map (\<lambda>c. snd (rev D ! fst c)) es = map (\<lambda>c. get_second (?xs ! fst c)) es"
    by (rule map_cong [OF refl]) (rule same)
  finally have dec: "decompress ?bits = Some (Inr input)" by (simp only: es(3) append_Nil)
  show ?thesis
  proof (intro exI conjI)
    show "build_huffman_array (compare_first (<)) (merge_first_op (+))
        (srt (unique_copy_with_count (sort input))) = Some (Inr (leaves @ I))"
      using b by (simp add: leaves_def)
    show "list_all (\<lambda>p. in_ptrdiff (fst p)) (leaves @ I)"
      using compress_nodes_in_range [OF assms b [unfolded leaves_def]] by (simp only: leaves_def)
    show "compress srt input = Some (Inr ?bits)" by (rule c)
    show "decompress ?bits = Some (Inr input)" by (rule dec)
  qed
qed

theorem compress_decompress_roundtrip_witness:
  "\<exists>nodes bits.
      build_huffman_array (compare_first (<)) (merge_first_op (+))
        (sort_key fst (unique_copy_with_count (sort ''abracadabra''))) = Some (Inr nodes)
    \<and> list_all (\<lambda>p. in_ptrdiff (fst p)) nodes
    \<and> compress (sort_key fst) ''abracadabra'' = Some (Inr bits)
    \<and> decompress bits = Some (Inr ''abracadabra'')"
proof -
  have h: "2 \<le> card (set ''abracadabra'')" "length ''abracadabra'' < 2 ^ 63"
    unfolding card_abracadabra by simp_all
  show ?thesis
    using compress_decompress_roundtrip [OF std_sort_sort_key h] .
qed

end
